theory Spec2Isabelle
  imports Complex_Main "HOL-Library.Monad_Syntax"
begin

section \<open>Task dependency scheduler of the task-validation tool\<close>

text \<open>
  The development embeds \<^verbatim>\<open>src/mastra/tools/task-validation.tool.ts\<close>: the cycle
  detector \<^verbatim>\<open>findCircularDependencies\<close>, the critical-path calculator
  \<^verbatim>\<open>calculateCriticalPath\<close>, the phase assigner \<^verbatim>\<open>optimizeTaskExecution\<close>, the
  plan builder \<^verbatim>\<open>generateExecutionPlan\<close> and the tool's \<^verbatim>\<open>execute\<close> function.

  Conventions of the embedding.
  \<^item> A JavaScript number that holds hours is an exact rational (\<^typ>\<open>rat\<close>): NaN,
    infinities and rounding are outside the model. Counters and phases are \<^typ>\<open>nat\<close>.
  \<^item> The closures' mutable variables (\<^verbatim>\<open>visited\<close>, \<^verbatim>\<open>recursionStack\<close>, \<^verbatim>\<open>cycles\<close>,
    \<^verbatim>\<open>phases\<close>) are explicit state, passed in and returned.
  \<^item> Every recursive source function takes a first argument \<open>fuel\<close>, a bound on the
    depth of the JavaScript call stack below it: a call with no fuel left is \<open>None\<close>.
    A source call returns \<open>r\<close> exactly when the model returns \<open>Some r\<close> for all
    large enough fuel (more fuel never changes a result: the lemmas \<open>*_fuel_mono\<close>);
    a source call that recurses without end is \<open>None\<close> for every fuel.
  \<^item> Functions the claims do not read but \<^verbatim>\<open>execute\<close> calls or that build messages
    (\<^verbatim>\<open>generateRecommendations\<close>, the message texts) are embedded as well, so that
    \<open>execute\<close> is the whole function.
\<close>

subsection \<open>Data model (the zod input schema)\<close>

datatype category = Design | Frontend | Backend | Devops | Testing | Documentation | Research

datatype priority = High | Medium | Low

datatype skillLevel = Junior | Mid | Senior

text \<open>The field \<^verbatim>\<open>id\<close> is \<open>task_id\<close>: \<open>id\<close> is the identity function of HOL.\<close>

record task =
  task_id :: string
  title :: string
  description :: string
  category :: category
  priority :: priority
  estimatedHours :: rat
  skillLevel :: skillLevel
  dependencies :: "string list"
  acceptanceCriteria :: "string list"

subsection \<open>Array helpers of JavaScript\<close>

text \<open>\<^verbatim>\<open>path.indexOf(x)\<close>: the first index of \<open>x\<close>, or \<open>-1\<close>.\<close>

fun indexOf :: "'a list \<Rightarrow> 'a \<Rightarrow> int" where
  "indexOf [] x = -1"
| "indexOf (y # ys) x =
     (if y = x then 0 else (let i = indexOf ys x in if i < 0 then -1 else i + 1))"

text \<open>\<^verbatim>\<open>path.slice(start)\<close>: a negative start counts from the end.\<close>

definition slice :: "'a list \<Rightarrow> int \<Rightarrow> 'a list" where
  "slice xs start =
     (let n = int (length xs);
          k = (if start < 0 then max (n + start) 0 else min start n)
      in drop (nat k) xs)"

subsection \<open>Cycle detector: \<^verbatim>\<open>findCircularDependencies\<close>\<close>

record dfs_state =
  visited :: "string set"
  recursionStack :: "string set"
  cycles :: "string list list"

text \<open>
  The inner function \<^verbatim>\<open>dfs(taskId, path)\<close>; \<open>dfs_deps\<close> is its loop
  \<^verbatim>\<open>for (const dep of task.dependencies) dfs(dep, path.concat(taskId))\<close>, called with
  the extended path.
\<close>

fun dfs :: "nat \<Rightarrow> task list \<Rightarrow> string \<Rightarrow> string list \<Rightarrow> dfs_state \<Rightarrow> dfs_state option"
and dfs_deps :: "nat \<Rightarrow> task list \<Rightarrow> string list \<Rightarrow> string list \<Rightarrow> dfs_state \<Rightarrow> dfs_state option"
where
  "dfs 0 tasks taskId path s = None"
| "dfs (Suc n) tasks taskId path s =
     (if taskId \<in> recursionStack s then
        Some (s\<lparr>cycles := cycles s @ [slice path (indexOf path taskId) @ [taskId]]\<rparr>)
      else if taskId \<in> visited s then Some s
      else do {
        let s1 = s\<lparr>visited := insert taskId (visited s),
                    recursionStack := insert taskId (recursionStack s)\<rparr>;
        s2 \<leftarrow> (case find (\<lambda>t. task_id t = taskId) tasks of
                Some task \<Rightarrow> dfs_deps n tasks (dependencies task) (path @ [taskId]) s1
              | None \<Rightarrow> Some s1);
        Some (s2\<lparr>recursionStack := recursionStack s2 - {taskId}\<rparr>)
      })"
| "dfs_deps n tasks [] path s = Some s"
| "dfs_deps n tasks (dep # deps) path s =
     do { s' \<leftarrow> dfs n tasks dep path s; dfs_deps n tasks deps path s' }"

text \<open>The loop over the roots: \<^verbatim>\<open>for (const task of tasks) if (!visited.has(task.id)) dfs(task.id, [])\<close>.\<close>

fun dfs_roots :: "nat \<Rightarrow> task list \<Rightarrow> task list \<Rightarrow> dfs_state \<Rightarrow> dfs_state option" where
  "dfs_roots n tasks [] s = Some s"
| "dfs_roots n tasks (t # ts) s =
     (if task_id t \<notin> visited s
      then do { s' \<leftarrow> dfs n tasks (task_id t) [] s; dfs_roots n tasks ts s' }
      else dfs_roots n tasks ts s)"

definition findCircularDependencies :: "nat \<Rightarrow> task list \<Rightarrow> string list list option" where
  "findCircularDependencies n tasks =
     map_option cycles
       (dfs_roots n tasks tasks \<lparr>visited = {}, recursionStack = {}, cycles = []\<rparr>)"

subsection \<open>Critical-path calculator: \<^verbatim>\<open>calculateCriticalPath\<close>\<close>

text \<open>\<^verbatim>\<open>new Map(tasks.map(t => [t.id, t]))\<close>: a later entry with the same key overwrites.\<close>

definition taskMap :: "task list \<Rightarrow> string \<rightharpoonup> task" where
  "taskMap tasks = fold (\<lambda>t m. m(task_id t \<mapsto> t)) tasks Map.empty"

text \<open>\<^verbatim>\<open>Math.max(0, ...xs)\<close>.\<close>

definition mathMax0 :: "rat list \<Rightarrow> rat" where
  "mathMax0 xs = fold max xs 0"

text \<open>
  The inner function \<^verbatim>\<open>calculateTaskDuration(taskId)\<close> over the shared set
  \<^verbatim>\<open>visited\<close> (here \<open>vis\<close>); \<open>depDurations\<close> is
  \<^verbatim>\<open>task.dependencies.map((dep) => calculateTaskDuration(dep))\<close>.
\<close>

fun calculateTaskDuration ::
  "nat \<Rightarrow> (string \<rightharpoonup> task) \<Rightarrow> string \<Rightarrow> string set \<Rightarrow> (rat \<times> string set) option"
and depDurations ::
  "nat \<Rightarrow> (string \<rightharpoonup> task) \<Rightarrow> string list \<Rightarrow> string set \<Rightarrow> (rat list \<times> string set) option"
where
  "calculateTaskDuration 0 tm taskId vis = None"
| "calculateTaskDuration (Suc n) tm taskId vis =
     (if taskId \<in> vis then Some (0, vis)
      else
        let vis1 = insert taskId vis in
        (case tm taskId of
           None \<Rightarrow> Some (0, vis1)
         | Some task \<Rightarrow> do {
             (ds, vis2) \<leftarrow> depDurations n tm (dependencies task) vis1;
             Some (mathMax0 ds + estimatedHours task, vis2)
           }))"
| "depDurations n tm [] vis = Some ([], vis)"
| "depDurations n tm (dep # deps) vis =
     do {
       (d, vis1) \<leftarrow> calculateTaskDuration n tm dep vis;
       (ds, vis2) \<leftarrow> depDurations n tm deps vis1;
       Some (d # ds, vis2)
     }"

text \<open>
  The two selection loops of the source have the same body: over the tasks (\<^verbatim>\<open>maxDuration\<close>,
  \<^verbatim>\<open>criticalTaskId\<close>) and, in \<^verbatim>\<open>buildPath\<close>, over the dependencies
  (\<^verbatim>\<open>maxDepDuration\<close>, \<^verbatim>\<open>criticalDep\<close>). Each round clears \<^verbatim>\<open>visited\<close>, computes the
  duration of the id and keeps it when it is strictly greater than the maximum so far.
\<close>

fun pickLongest ::
  "nat \<Rightarrow> (string \<rightharpoonup> task) \<Rightarrow> string list \<Rightarrow> rat \<Rightarrow> string \<Rightarrow> (rat \<times> string) option"
where
  "pickLongest n tm [] maxDuration critical = Some (maxDuration, critical)"
| "pickLongest n tm (i # ids) maxDuration critical =
     do {
       (duration, _) \<leftarrow> calculateTaskDuration n tm i {};
       if duration > maxDuration then pickLongest n tm ids duration i
       else pickLongest n tm ids maxDuration critical
     }"

text \<open>
  The inner function \<^verbatim>\<open>buildPath(taskId)\<close>; \<^verbatim>\<open>criticalPath.unshift(taskId)\<close> puts the id
  in front. \<^verbatim>\<open>if (criticalDep)\<close> is false for the empty string.
\<close>

fun buildPath ::
  "nat \<Rightarrow> (string \<rightharpoonup> task) \<Rightarrow> string \<Rightarrow> string list \<Rightarrow> string list option"
where
  "buildPath 0 tm taskId cp = None"
| "buildPath (Suc n) tm taskId cp =
     (case tm taskId of
        None \<Rightarrow> Some cp
      | Some task \<Rightarrow>
          let cp1 = taskId # cp in
          if length (dependencies task) > 0 then
            do {
              (maxDepDuration, criticalDep) \<leftarrow> pickLongest n tm (dependencies task) 0 [];
              if criticalDep \<noteq> [] then buildPath n tm criticalDep cp1 else Some cp1
            }
          else Some cp1)"

definition calculateCriticalPath :: "nat \<Rightarrow> task list \<Rightarrow> string list option" where
  "calculateCriticalPath n tasks =
     do {
       (maxDuration, criticalTaskId) \<leftarrow> pickLongest n (taskMap tasks) (map task_id tasks) 0 [];
       if criticalTaskId \<noteq> [] then buildPath n (taskMap tasks) criticalTaskId [] else Some []
     }"

subsection \<open>Phase assigner: \<^verbatim>\<open>optimizeTaskExecution\<close>\<close>

record optimized_task = task +
  phase :: nat
  canStartInParallel :: bool

text \<open>
  The inner function \<^verbatim>\<open>assignPhase(taskId)\<close> over the shared map \<^verbatim>\<open>phases\<close> (here
  \<open>phs\<close>) and set \<^verbatim>\<open>visited\<close> (here \<open>vis\<close>); \<open>assignDeps\<close> is its loop over the
  dependencies, which carries \<^verbatim>\<open>maxDepPhase\<close>. An id that is not a task's returns \<open>1\<close>
  and stays in \<^verbatim>\<open>visited\<close>.
\<close>

fun assignPhase ::
  "nat \<Rightarrow> (string \<rightharpoonup> task) \<Rightarrow> string \<Rightarrow> (string \<rightharpoonup> nat) \<times> string set \<Rightarrow>
     (nat \<times> (string \<rightharpoonup> nat) \<times> string set) option"
and assignDeps ::
  "nat \<Rightarrow> (string \<rightharpoonup> task) \<Rightarrow> string list \<Rightarrow> nat \<Rightarrow> (string \<rightharpoonup> nat) \<times> string set \<Rightarrow>
     (nat \<times> (string \<rightharpoonup> nat) \<times> string set) option"
where
  "assignPhase 0 tm taskId (phs, vis) = None"
| "assignPhase (Suc n) tm taskId (phs, vis) =
     (case phs taskId of
        Some p \<Rightarrow> Some (p, phs, vis)
      | None \<Rightarrow>
          if taskId \<in> vis then Some (1, phs, vis)
          else
            (case tm taskId of
               None \<Rightarrow> Some (1, phs, insert taskId vis)
             | Some task \<Rightarrow> do {
                 (maxDepPhase, phs', vis') \<leftarrow>
                   assignDeps n tm (dependencies task) 0 (phs, insert taskId vis);
                 let p = maxDepPhase + 1;
                 Some (p, phs'(taskId \<mapsto> p), vis' - {taskId})
               }))"
| "assignDeps n tm [] maxDepPhase (phs, vis) = Some (maxDepPhase, phs, vis)"
| "assignDeps n tm (dep # deps) maxDepPhase (phs, vis) =
     do {
       (p, phs', vis') \<leftarrow> assignPhase n tm dep (phs, vis);
       assignDeps n tm deps (max maxDepPhase p) (phs', vis')
     }"

text \<open>\<^verbatim>\<open>for (const task of tasks) assignPhase(task.id)\<close>.\<close>

fun assignAll ::
  "nat \<Rightarrow> (string \<rightharpoonup> task) \<Rightarrow> task list \<Rightarrow> (string \<rightharpoonup> nat) \<times> string set \<Rightarrow>
     ((string \<rightharpoonup> nat) \<times> string set) option"
where
  "assignAll n tm [] st = Some st"
| "assignAll n tm (t # ts) st =
     do { (_, st') \<leftarrow> assignPhase n tm (task_id t) st; assignAll n tm ts st' }"

text \<open>\<^verbatim>\<open>{...task, phase, canStartInParallel}\<close>.\<close>

definition annotate :: "task \<Rightarrow> nat \<Rightarrow> bool \<Rightarrow> optimized_task" where
  "annotate t p par =
     \<lparr>task_id = task_id t, title = title t, description = description t,
      category = category t, priority = priority t, estimatedHours = estimatedHours t,
      skillLevel = skillLevel t, dependencies = dependencies t,
      acceptanceCriteria = acceptanceCriteria t, phase = p, canStartInParallel = par\<rparr>"

text \<open>
  \<^verbatim>\<open>phases.get(task.id) || 1\<close> is \<open>1\<close> for a missing entry and for \<open>0\<close>;
  \<^verbatim>\<open>phases.get(t.id) === phase\<close> is false for a missing entry.
\<close>

definition optimizeTaskExecution :: "nat \<Rightarrow> task list \<Rightarrow> optimized_task list option" where
  "optimizeTaskExecution n tasks =
     do {
       (phs, _) \<leftarrow> assignAll n (taskMap tasks) tasks (Map.empty, {});
       Some (map (\<lambda>task.
         let p = (case phs (task_id task) of None \<Rightarrow> 1 | Some q \<Rightarrow> if q = 0 then 1 else q);
             samePhaseTasks = filter (\<lambda>t. phs (task_id t) = Some p) tasks
         in annotate task p (length samePhaseTasks > 1)) tasks)
     }"

subsection \<open>Strings of JavaScript\<close>

text \<open>A number in a template string, for a natural number and for an integer.\<close>

fun show_nat :: "nat \<Rightarrow> string" where
  "show_nat n =
     (if n < 10 then [char_of (48 + n)]
      else show_nat (n div 10) @ [char_of (48 + n mod 10)])"

declare show_nat.simps [simp del]

definition show_int :: "int \<Rightarrow> string" where
  "show_int i = (if i < 0 then CHR ''-'' # show_nat (nat (- i)) else show_nat (nat i))"

text \<open>\<^verbatim>\<open>xs.join(sep)\<close>.\<close>

fun join :: "string \<Rightarrow> string list \<Rightarrow> string" where
  "join sep [] = []"
| "join sep [x] = x"
| "join sep (x # y # xs) = x @ sep @ join sep (y # xs)"

text \<open>\<^verbatim>\<open>s.toLowerCase()\<close>, on the ASCII letters; every other character is kept.\<close>

definition toLowerCase :: "string \<Rightarrow> string" where
  "toLowerCase s =
     map (\<lambda>c. if 65 \<le> (of_char c :: nat) \<and> (of_char c :: nat) \<le> 90
               then char_of (of_char c + 32 :: nat) else c) s"

text \<open>\<^verbatim>\<open>s.includes(sub)\<close>: \<open>sub\<close> occurs in \<open>s\<close>.\<close>

fun includesStr :: "string \<Rightarrow> string \<Rightarrow> bool" where
  "includesStr [] sub = (sub = [])"
| "includesStr (c # cs) sub = (take (length sub) (c # cs) = sub \<or> includesStr cs sub)"

text \<open>\<^verbatim>\<open>[...new Set(xs)]\<close>: the distinct elements in the order of their first occurrence.\<close>

definition distinctInOrder :: "'a list \<Rightarrow> 'a list" where
  "distinctInOrder xs = fold (\<lambda>x acc. if x \<in> set acc then acc else acc @ [x]) xs []"

fun show_category :: "category \<Rightarrow> string" where
  "show_category Design = ''design''"
| "show_category Frontend = ''frontend''"
| "show_category Backend = ''backend''"
| "show_category Devops = ''devops''"
| "show_category Testing = ''testing''"
| "show_category Documentation = ''documentation''"
| "show_category Research = ''research''"

definition quoted :: "string \<Rightarrow> string" where
  "quoted s = [CHR 0x22] @ s @ [CHR 0x22]"

subsection \<open>Plan builder: \<^verbatim>\<open>generateExecutionPlan\<close>\<close>

text \<open>
  The optional \<^verbatim>\<open>constraints\<close> object. The input schema declares the first four
  fields; \<^verbatim>\<open>generateExecutionPlan\<close> reads a fifth, \<^verbatim>\<open>teamSize\<close>.
\<close>

record constraints =
  requiredCapabilities :: "string list option"
  technicalConstraints :: "string list option"
  integrationPoints :: "string list option"
  performanceRequirements :: "string list option"
  teamSize :: "rat option"

text \<open>
  One entry of \<^verbatim>\<open>executionPlan.phases\<close>: the fields \<^verbatim>\<open>phase\<close>, \<^verbatim>\<open>tasks\<close>,
  \<^verbatim>\<open>estimatedHours\<close> and \<^verbatim>\<open>description\<close>, with the prefix \<open>pe_\<close> to keep them apart
  from the fields of a task. The field \<^verbatim>\<open>phases\<close> of the plan is \<open>plan_phases\<close>.
\<close>

record phase_entry =
  pe_phase :: nat
  pe_tasks :: "string list"
  pe_estimatedHours :: rat
  pe_description :: string

record execution_plan =
  plan_phases :: "phase_entry list"
  totalPhases :: nat
  estimatedDuration :: string

text \<open>
  \<^verbatim>\<open>phaseMap\<close> is a \<^verbatim>\<open>Map\<close> from the phase number to the tasks of the phase, in
  insertion order: an association list. \<open>phaseMapPush\<close> is one round of the
  \<^verbatim>\<open>forEach\<close>: create the entry when the key is new, then push the task.
\<close>

fun phaseMapPush ::
  "(nat \<times> optimized_task list) list \<Rightarrow> nat \<Rightarrow> optimized_task \<Rightarrow> (nat \<times> optimized_task list) list"
where
  "phaseMapPush [] k t = [(k, [t])]"
| "phaseMapPush ((k', ts) # m) k t =
     (if k' = k then (k', ts @ [t]) # m else (k', ts) # phaseMapPush m k t)"

definition groupByPhase :: "optimized_task list \<Rightarrow> (nat \<times> optimized_task list) list" where
  "groupByPhase optimizedTasks = fold (\<lambda>t m. phaseMapPush m (phase t) t) optimizedTasks []"

text \<open>
  \<^verbatim>\<open>Math.max(...xs)\<close> of a non-empty list. For the empty list JavaScript gives
  \<open>-Infinity\<close>, which is no rational: the equation is left out, and
  \<open>groupByPhase\<close> makes no empty group (\<open>groupByPhase_nonempty\<close> below).
\<close>

fun mathMax :: "rat list \<Rightarrow> rat" where
  "mathMax (x # xs) = fold max xs x"

text \<open>\<^verbatim>\<open>constraints?.teamSize || 1\<close>: \<open>1\<close> when the field is missing or \<open>0\<close>.\<close>

definition teamSizeOr1 :: "constraints option \<Rightarrow> rat" where
  "teamSizeOr1 cs =
     (case cs of
        None \<Rightarrow> 1
      | Some c \<Rightarrow> (case teamSize c of None \<Rightarrow> 1 | Some k \<Rightarrow> if k = 0 then 1 else k))"

definition phaseEntry :: "nat \<times> optimized_task list \<Rightarrow> phase_entry" where
  "phaseEntry e =
     (case e of (phaseNum, ts) \<Rightarrow>
        \<lparr>pe_phase = phaseNum,
         pe_tasks = map task_id ts,
         pe_estimatedHours = mathMax (map estimatedHours ts),
         pe_description =
           ''Phase '' @ show_nat phaseNum @ '': '' @
           join '', '' (map show_category (distinctInOrder (map category ts)))\<rparr>)"

definition generateExecutionPlan :: "optimized_task list \<Rightarrow> constraints option \<Rightarrow> execution_plan" where
  "generateExecutionPlan optimizedTasks cs =
     (let phaseList = map phaseEntry (groupByPhase optimizedTasks);
          totalParallelHours = foldl (\<lambda>sum p. sum + pe_estimatedHours p) 0 phaseList;
          estimatedDays = \<lceil>totalParallelHours / (teamSizeOr1 cs * 8)\<rceil>
      in \<lparr>plan_phases = phaseList,
          totalPhases = length phaseList,
          estimatedDuration = show_int estimatedDays @ '' days''\<rparr>)"

subsection \<open>Recommendations: \<^verbatim>\<open>generateRecommendations\<close>\<close>

text \<open>
  \<^verbatim>\<open>skillDistribution\<close> has an entry only for a skill level that occurs, and a
  comparison with a missing entry is false: the second recommendation needs all three
  levels to occur. \<^verbatim>\<open>0.3\<close> is the rational \<open>3/10\<close>.
\<close>

definition generateRecommendations :: "task list \<Rightarrow> string list" where
  "generateRecommendations tasks =
     (let largeTasks = filter (\<lambda>t. estimatedHours t > 16) tasks;
          count = (\<lambda>l. length (filter (\<lambda>t. skillLevel t = l) tasks));
          parallelTasks = filter (\<lambda>t. length (dependencies t) = 0) tasks;
          testingTasks = filter (\<lambda>t. category t = Testing) tasks;
          developmentTasks = filter (\<lambda>t. category t \<in> {Frontend, Backend}) tasks;
          docTasks = filter (\<lambda>t. category t = Documentation) tasks
      in
        (if length largeTasks > 0
         then [''Consider breaking down '' @ show_nat (length largeTasks) @
               '' large tasks (>16 hours) into smaller chunks'']
         else []) @
        (if count Senior > 0 \<and> count Junior > 0 \<and> count Mid > 0 \<and>
            count Senior > count Junior + count Mid
         then [''Consider delegating some tasks to junior/mid-level developers'']
         else []) @
        (if length parallelTasks > 1
         then [show_nat (length parallelTasks) @ '' tasks can be started in parallel'']
         else []) @
        (if (of_nat (length testingTasks) :: rat) < of_nat (length developmentTasks) * (3 / 10)
         then [''Consider adding more testing tasks to ensure quality'']
         else []) @
        (if length docTasks = 0
         then [''Consider adding documentation tasks for better maintainability'']
         else []))"

subsection \<open>The tool: \<^verbatim>\<open>execute\<close>\<close>

text \<open>
  An entry of \<^verbatim>\<open>issues\<close>: the fields \<^verbatim>\<open>type\<close> and \<^verbatim>\<open>taskId\<close> are \<open>issue_type\<close> and
  \<open>issue_taskId\<close>. The report and the tool's result follow the output schema.
\<close>

datatype issue_type = Error | Warning | Info

record issue =
  issue_type :: issue_type
  issue_taskId :: "string option"
  message :: string
  suggestion :: "string option"

record validation_results =
  isValid :: bool
  totalHours :: rat
  criticalPath :: "string list"
  issues :: "issue list"
  recommendations :: "string list"

record tool_output =
  validationResults :: validation_results
  optimizedTasks :: "optimized_task list"
  executionPlan :: execution_plan

text \<open>The body of \<^verbatim>\<open>tasks.forEach(task => ...)\<close>: the issues one task adds, in order.\<close>

definition hasConstraintViolation :: "constraints option \<Rightarrow> task \<Rightarrow> bool" where
  "hasConstraintViolation cs task =
     (case cs of
        None \<Rightarrow> False
      | Some c \<Rightarrow>
          (case technicalConstraints c of
             None \<Rightarrow> False
           | Some tcs \<Rightarrow>
               length tcs > 0 \<and>
               list_ex (\<lambda>constraint.
                  includesStr (toLowerCase (title task)) (toLowerCase constraint) \<or>
                  includesStr (toLowerCase (description task)) (toLowerCase constraint)) tcs))"

definition danglingIssue :: "task \<Rightarrow> string \<Rightarrow> issue" where
  "danglingIssue task depId =
     \<lparr>issue_type = Error, issue_taskId = Some (task_id task),
      message = ''Task '' @ quoted (title task) @ '' depends on non-existent task '' @ quoted depId,
      suggestion = Some ''Remove invalid dependency or add the missing task''\<rparr>"

definition taskIssues :: "task list \<Rightarrow> constraints option \<Rightarrow> task \<Rightarrow> issue list" where
  "taskIssues tasks cs task =
     (if hasConstraintViolation cs task
      then [\<lparr>issue_type = Warning, issue_taskId = Some (task_id task),
             message = ''Task '' @ quoted (title task) @ '' may conflict with technical constraints'',
             suggestion = Some ''Review task requirements against technical constraints''\<rparr>]
      else []) @
     concat (map (\<lambda>depId.
        if \<not> list_ex (\<lambda>t. task_id t = depId) tasks then [danglingIssue task depId] else [])
        (dependencies task)) @
     (if length (acceptanceCriteria task) = 0
      then [\<lparr>issue_type = Warning, issue_taskId = Some (task_id task),
             message = ''Task '' @ quoted (title task) @ '' has no acceptance criteria'',
             suggestion = Some ''Add specific acceptance criteria for this task''\<rparr>]
      else [])"

text \<open>The check of \<^verbatim>\<open>constraints.requiredCapabilities\<close>.\<close>

definition capabilityIssues :: "task list \<Rightarrow> constraints option \<Rightarrow> issue list" where
  "capabilityIssues tasks cs =
     (case cs of
        None \<Rightarrow> []
      | Some c \<Rightarrow>
          (case requiredCapabilities c of
             None \<Rightarrow> []
           | Some caps \<Rightarrow>
               if length caps > 0 then
                 (let missingCapabilities =
                    filter (\<lambda>capability.
                      \<not> list_ex (\<lambda>task. includesStr (toLowerCase (title task)) (toLowerCase capability))
                         tasks) caps
                  in if length missingCapabilities > 0
                     then [\<lparr>issue_type = Warning, issue_taskId = None,
                            message = ''Missing tasks for required capabilities: '' @
                              join '', '' missingCapabilities,
                            suggestion = Some ''Add tasks to cover all required AI capabilities''\<rparr>]
                     else [])
               else []))"

definition cycleIssue :: "string list \<Rightarrow> issue" where
  "cycleIssue cycle =
     \<lparr>issue_type = Error, issue_taskId = None,
      message = ''Circular dependency detected: '' @ join '' -> '' cycle,
      suggestion = Some ''Remove or restructure dependencies to eliminate cycles''\<rparr>"

text \<open>
  The list \<^verbatim>\<open>issues\<close> when \<^verbatim>\<open>execute\<close> reaches the critical path: the issues of the
  tasks, the capability warning and one error for each cycle found.
\<close>

definition collectIssues :: "nat \<Rightarrow> task list \<Rightarrow> constraints option \<Rightarrow> issue list option" where
  "collectIssues n tasks cs =
     do {
       circularDeps \<leftarrow> findCircularDependencies n tasks;
       Some (concat (map (taskIssues tasks cs) tasks) @ capabilityIssues tasks cs @
             map cycleIssue circularDeps)
     }"

definition execute :: "nat \<Rightarrow> task list \<Rightarrow> constraints option \<Rightarrow> tool_output option" where
  "execute n tasks cs =
     do {
       iss \<leftarrow> collectIssues n tasks cs;
       cp \<leftarrow> calculateCriticalPath n tasks;
       opt \<leftarrow> optimizeTaskExecution n tasks;
       Some \<lparr>validationResults =
               \<lparr>isValid = (length (filter (\<lambda>i. issue_type i = Error) iss) = 0),
                totalHours = foldl (\<lambda>sum task. sum + estimatedHours task) 0 tasks,
                criticalPath = cp,
                issues = iss,
                recommendations = generateRecommendations tasks\<rparr>,
             optimizedTasks = opt,
             executionPlan = generateExecutionPlan opt cs\<rparr>
     }"

section \<open>Vocabulary of the specification\<close>

subsection \<open>The dependency graph\<close>

text \<open>
  \<open>depends tasks a b\<close>: the task that the id \<open>a\<close> denotes declares the dependency
  \<open>b\<close>. The task an id denotes is the one \<^verbatim>\<open>tasks.find(t => t.id === a)\<close> returns;
  when the ids are unique it is the only task with that id. \<open>dep_rel\<close> keeps the edges
  whose target is the id of a task: the resolvable dependency edges.
\<close>

definition depends :: "task list \<Rightarrow> string \<Rightarrow> string \<Rightarrow> bool" where
  "depends tasks a b =
     (case find (\<lambda>t. task_id t = a) tasks of
        None \<Rightarrow> False
      | Some t \<Rightarrow> b \<in> set (dependencies t))"

definition dep_rel :: "task list \<Rightarrow> (string \<times> string) set" where
  "dep_rel tasks = {(a, b). depends tasks a b \<and> b \<in> task_id ` set tasks}"

text \<open>
  A reported cycle: at least two entries, the first equal to the last, and every entry
  a declared dependency of the entry before it.
\<close>

definition is_cycle :: "task list \<Rightarrow> string list \<Rightarrow> bool" where
  "is_cycle tasks c \<longleftrightarrow> 2 \<le> length c \<and> hd c = last c \<and> successively (depends tasks) c"

subsection \<open>Dependency paths and their hours\<close>

text \<open>
  A dependency path lists task ids in execution order: every entry depends on the entry
  before it. Its hours are the sum of the \<^verbatim>\<open>estimatedHours\<close> of its tasks.
\<close>

definition hoursOf :: "task list \<Rightarrow> string \<Rightarrow> rat" where
  "hoursOf tasks i =
     (case find (\<lambda>t. task_id t = i) tasks of None \<Rightarrow> 0 | Some t \<Rightarrow> estimatedHours t)"

definition pathHours :: "task list \<Rightarrow> string list \<Rightarrow> rat" where
  "pathHours tasks p = sum_list (map (hoursOf tasks) p)"

definition dependency_path :: "task list \<Rightarrow> string list \<Rightarrow> bool" where
  "dependency_path tasks p \<longleftrightarrow>
     p \<noteq> [] \<and> set p \<subseteq> task_id ` set tasks \<and> successively (\<lambda>a b. depends tasks b a) p"

subsection \<open>The hours of a phase\<close>


subsection \<open>Example inputs\<close>

definition mkTask :: "string \<Rightarrow> rat \<Rightarrow> string list \<Rightarrow> task" where
  "mkTask i h ds =
     \<lparr>task_id = i, title = i, description = [], category = Backend, priority = Medium,
      estimatedHours = h, skillLevel = Mid, dependencies = ds, acceptanceCriteria = [''done'']\<rparr>"

text \<open>Scenario 7 of the specification: A (2h), B (3h, after A), C (1h, after A).\<close>

definition scenario_abc :: "task list" where
  "scenario_abc = [mkTask ''A'' 2 [], mkTask ''B'' 3 [''A''], mkTask ''C'' 1 [''A'']]"

text \<open>Scenario 8 of the specification: X depends on Y and Y on X (one hour each).\<close>

definition scenario_xy :: "task list" where
  "scenario_xy = [mkTask ''X'' 1 [''Y''], mkTask ''Y'' 1 [''X'']]"

text \<open>Scenario 9 of the specification: Z depends on an id that no task has.\<close>

definition scenario_ghost :: "task list" where
  "scenario_ghost = [mkTask ''Z'' 1 [''ghost'']]"

text \<open>Two tasks with the same id; the first depends on an id that no task has.\<close>

definition duplicate_ids :: "task list" where
  "duplicate_ids = [mkTask ''X'' 1 [''ghost''], mkTask ''X'' 1 []]"

text \<open>
  An acyclic input in which D reaches A directly and through B:
  A (10h), B (1h, after A), D (1h, after A and B).
\<close>

definition critical_diamond :: "task list" where
  "critical_diamond = [mkTask ''A'' 10 [], mkTask ''B'' 1 [''A''], mkTask ''D'' 1 [''A'', ''B'']]"

text \<open>Two tasks of zero hours.\<close>

definition zero_hours :: "task list" where
  "zero_hours = [mkTask ''A'' 0 [], mkTask ''B'' 0 [''A'']]"



subsection \<open>Invariants of the depth-first search\<close>

text \<open>The ids whose call of \<^verbatim>\<open>dfs\<close> has returned.\<close>

definition finished :: "dfs_state \<Rightarrow> string set" where
  "finished s = visited s - recursionStack s"

text \<open>
  The invariant of the search: the stack is visited; every recorded cycle is one; as long
  as no cycle is recorded, the finished ids are closed under the dependencies and lie on
  no cycle; and two finished ids that depend on each other are on a recorded cycle.
\<close>

definition dfs_inv :: "task list \<Rightarrow> dfs_state \<Rightarrow> bool" where
  "dfs_inv tasks s \<longleftrightarrow>
     recursionStack s \<subseteq> visited s \<and>
     (\<forall>c\<in>set (cycles s). is_cycle tasks c) \<and>
     (cycles s = [] \<longrightarrow>
        (\<forall>v\<in>finished s. \<forall>d. depends tasks v d \<longrightarrow> d \<in> finished s) \<and>
        (\<forall>v\<in>finished s. (v, v) \<notin> {(a, b). depends tasks a b}\<^sup>+)) \<and>
     (\<forall>v\<in>finished s. \<forall>d. depends tasks v d \<and> depends tasks d v \<longrightarrow>
        (\<exists>c\<in>set (cycles s). v \<in> set c \<and> d \<in> set c))"

text \<open>What a call \<^verbatim>\<open>dfs(x, path)\<close> from the state \<open>s\<close> establishes in its final state.\<close>

definition dfs_post :: "task list \<Rightarrow> string \<Rightarrow> string list \<Rightarrow> dfs_state \<Rightarrow> dfs_state \<Rightarrow> bool" where
  "dfs_post tasks x path s s' \<longleftrightarrow>
     dfs_inv tasks s' \<and> recursionStack s' = recursionStack s \<and> visited s \<subseteq> visited s' \<and>
     x \<in> visited s' \<and> (\<exists>cs. cycles s' = cycles s @ cs) \<and>
     (cycles s' = [] \<longrightarrow> x \<notin> recursionStack s) \<and>
     (x \<in> recursionStack s \<longrightarrow> (\<exists>c\<in>set (cycles s'). x \<in> set c \<and> last path \<in> set c))"

definition deps_post :: "task list \<Rightarrow> string list \<Rightarrow> string list \<Rightarrow> dfs_state \<Rightarrow> dfs_state \<Rightarrow> bool" where
  "deps_post tasks ds path s s' \<longleftrightarrow>
     dfs_inv tasks s' \<and> recursionStack s' = recursionStack s \<and> visited s \<subseteq> visited s' \<and>
     set ds \<subseteq> visited s' \<and> (\<exists>cs. cycles s' = cycles s @ cs) \<and>
     (cycles s' = [] \<longrightarrow> set ds \<inter> recursionStack s = {}) \<and>
     (\<forall>d\<in>set ds. d \<in> recursionStack s \<longrightarrow>
        (\<exists>c\<in>set (cycles s'). d \<in> set c \<and> last path \<in> set c))"

subsection \<open>Invariants of the phase assigner\<close>

text \<open>
  What every entry of \<^verbatim>\<open>phases\<close> satisfies, on any input: the id is a task's, the
  phase is at least 1, it is 1 when the task declares no dependency and 2 when it
  declares only ids that no task has.
\<close>

definition phases_ok :: "(string \<rightharpoonup> task) \<Rightarrow> (string \<rightharpoonup> nat) \<Rightarrow> bool" where
  "phases_ok tm phs \<longleftrightarrow>
     (\<forall>i q. phs i = Some q \<longrightarrow>
        (\<exists>t. tm i = Some t \<and> 1 \<le> q \<and> (dependencies t = [] \<longrightarrow> q = 1) \<and>
           (dependencies t \<noteq> [] \<and> set (dependencies t) \<inter> dom tm = {} \<longrightarrow> q = 2)))"

definition ap_pre :: "(string \<rightharpoonup> task) \<Rightarrow> (string \<rightharpoonup> nat) \<Rightarrow> string set \<Rightarrow> bool" where
  "ap_pre tm phs vis \<longleftrightarrow> phases_ok tm phs \<and> dom phs \<inter> vis = {}"

definition ap_frame ::
  "(string \<rightharpoonup> task) \<Rightarrow> (string \<rightharpoonup> nat) \<Rightarrow> string set \<Rightarrow> (string \<rightharpoonup> nat) \<Rightarrow> string set \<Rightarrow> bool" where
  "ap_frame tm phs vis phs' vis' \<longleftrightarrow>
     ap_pre tm phs' vis' \<and> phs \<subseteq>\<^sub>m phs' \<and> vis' \<inter> dom tm = vis \<inter> dom tm"

text \<open>
  The graph as \<^verbatim>\<open>taskMap\<close> resolves it; on an acyclic graph every entry of
  \<^verbatim>\<open>phases\<close> is above the entries of the task's resolvable dependencies, and the
  resolvable ids in \<^verbatim>\<open>visited\<close> are ancestors of the id being assigned.
\<close>

definition tm_rel :: "(string \<rightharpoonup> task) \<Rightarrow> (string \<times> string) set" where
  "tm_rel tm = {(a, b). \<exists>t. tm a = Some t \<and> b \<in> set (dependencies t) \<and> b \<in> dom tm}"

definition mono_ok :: "(string \<rightharpoonup> task) \<Rightarrow> (string \<rightharpoonup> nat) \<Rightarrow> bool" where
  "mono_ok tm phs \<longleftrightarrow>
     (\<forall>i p t. phs i = Some p \<longrightarrow> tm i = Some t \<longrightarrow>
        (\<forall>d\<in>set (dependencies t). d \<in> dom tm \<longrightarrow> (\<exists>q. phs d = Some q \<and> q < p)))"

definition anc :: "(string \<rightharpoonup> task) \<Rightarrow> string set \<Rightarrow> string \<Rightarrow> bool" where
  "anc tm vis x \<longleftrightarrow> (\<forall>v\<in>vis \<inter> dom tm. (v, x) \<in> (tm_rel tm)\<^sup>+)"

section \<open>The cycle detector is correct\<close>

subsection \<open>Array helpers\<close>

lemma indexOf_mem:
  "x \<in> set xs \<Longrightarrow> 0 \<le> indexOf xs x \<and> nat (indexOf xs x) < length xs \<and> xs ! nat (indexOf xs x) = x"
  by (induction xs) (auto simp: Let_def nat_add_distrib)

lemma indexOf_not_mem: "x \<notin> set xs \<Longrightarrow> indexOf xs x = -1"
  by (induction xs) (auto simp: Let_def)

lemma slice_indexOf:
  assumes "x \<in> set xs"
  shows "\<exists>pre post. xs = pre @ x # post \<and> slice xs (indexOf xs x) = x # post"
proof -
  let ?k = "nat (indexOf xs x)"
  from indexOf_mem[OF assms] have k: "0 \<le> indexOf xs x" "?k < length xs" "xs ! ?k = x" by auto
  then have "slice xs (indexOf xs x) = drop ?k xs"
    by (auto simp: slice_def Let_def min_def)
  also have "\<dots> = x # drop (Suc ?k) xs" using k by (metis Cons_nth_drop_Suc)
  finally have "slice xs (indexOf xs x) = x # drop (Suc ?k) xs" .
  moreover have "xs = take ?k xs @ x # drop (Suc ?k) xs"
    using k by (metis id_take_nth_drop)
  ultimately show ?thesis by blast
qed

subsection \<open>The search returns on every input\<close>

lemma dfs_returns:
  "card (task_id ` set tasks - recursionStack s) < n \<Longrightarrow>
     \<exists>s'. dfs n tasks x path s = Some s' \<and> recursionStack s' = recursionStack s"
  "card (task_id ` set tasks - recursionStack s) < n \<Longrightarrow>
     \<exists>s'. dfs_deps n tasks ds path s = Some s' \<and> recursionStack s' = recursionStack s"
proof (induction n tasks x path s and n tasks ds path s rule: dfs_dfs_deps.induct)
  case (1 tasks taskId path s)
  then show ?case by simp
next
  case (2 n tasks taskId path s)
  show ?case
  proof (cases "taskId \<in> recursionStack s \<or> taskId \<in> visited s")
    case True
    then show ?thesis by auto
  next
    case False
    let ?s1 = "s\<lparr>visited := insert taskId (visited s),
                    recursionStack := insert taskId (recursionStack s)\<rparr>"
    show ?thesis
    proof (cases "find (\<lambda>t. task_id t = taskId) tasks")
      case None
      with False show ?thesis by auto
    next
      case (Some task)
      then have "taskId \<in> task_id ` set tasks"
        by (auto simp: find_Some_iff)
      with False have "card (task_id ` set tasks - recursionStack ?s1)
          < card (task_id ` set tasks - recursionStack s)"
        by (intro psubset_card_mono) auto
      with "2.prems" have "card (task_id ` set tasks - recursionStack ?s1) < n" by simp
      from "2.IH"[OF _ _ refl Some this] False
      obtain s2 where "dfs_deps n tasks (dependencies task) (path @ [taskId]) ?s1 = Some s2"
        "recursionStack s2 = recursionStack ?s1" by auto
      with False Some show ?thesis by auto
    qed
  qed
next
  case (3 n tasks path s)
  then show ?case by simp
next
  case (4 n tasks dep deps path s)
  from "4.IH"(1)[OF "4.prems"] obtain s1 where
    s1: "dfs n tasks dep path s = Some s1" "recursionStack s1 = recursionStack s" by auto
  from "4.IH"(2)[OF s1(1)] "4.prems" s1(2) obtain s2 where
    "dfs_deps n tasks deps path s1 = Some s2" "recursionStack s2 = recursionStack s1" by auto
  with s1 show ?case by simp
qed

text \<open>More fuel does not change a result.\<close>

lemma dfs_fuel_mono:
  "dfs n tasks x path s = Some s' \<Longrightarrow> n \<le> m \<Longrightarrow> dfs m tasks x path s = Some s'"
  "dfs_deps n tasks ds path s = Some s' \<Longrightarrow> n \<le> m \<Longrightarrow> dfs_deps m tasks ds path s = Some s'"
proof (induction n tasks x path s and n tasks ds path s arbitrary: m s' and m s'
    rule: dfs_dfs_deps.induct)
  case (1 tasks taskId path s)
  then show ?case by simp
next
  case (2 n tasks taskId path s)
  from "2.prems"(2) obtain m' where m: "m = Suc m'" "n \<le> m'" by (cases m) auto
  show ?case
  proof (cases "taskId \<in> recursionStack s \<or> taskId \<in> visited s")
    case True
    with "2.prems"(1) show ?thesis by (auto simp: m)
  next
    case False
    show ?thesis
    proof (cases "find (\<lambda>t. task_id t = taskId) tasks")
      case None
      with False have "dfs (Suc m') tasks taskId path s = dfs (Suc n) tasks taskId path s"
        by simp
      with "2.prems"(1) show ?thesis by (simp only: m)
    next
      case (Some task)
      with False "2.prems"(1) obtain s2 where
        r: "dfs_deps n tasks (dependencies task) (path @ [taskId])
              (s\<lparr>visited := insert taskId (visited s),
                 recursionStack := insert taskId (recursionStack s)\<rparr>) = Some s2"
        and eq: "s' = s2\<lparr>recursionStack := recursionStack s2 - {taskId}\<rparr>"
        by (auto split: bind_splits)
      from "2.IH"[OF _ _ refl Some r m(2)] False Some eq show ?thesis
        by (simp add: m)
    qed
  qed
next
  case (3 n tasks path s)
  then show ?case by simp
next
  case (4 n tasks dep deps path s)
  from "4.prems"(1) obtain s1 where
    r1: "dfs n tasks dep path s = Some s1" and r2: "dfs_deps n tasks deps path s1 = Some s'"
    by (auto split: bind_splits)
  from "4.IH"(1)[OF r1 "4.prems"(2)] "4.IH"(2)[OF r1 r2 "4.prems"(2)] show ?case by simp
qed

lemma dfs_roots_fuel_mono:
  "dfs_roots n tasks ts s = Some s' \<Longrightarrow> n \<le> m \<Longrightarrow> dfs_roots m tasks ts s = Some s'"
proof (induction ts arbitrary: s)
  case Nil
  then show ?case by simp
next
  case (Cons t ts)
  show ?case
  proof (cases "task_id t \<in> visited s")
    case True
    with Cons show ?thesis by simp
  next
    case False
    with Cons.prems(1) obtain s1 where
      r1: "dfs n tasks (task_id t) [] s = Some s1" and r2: "dfs_roots n tasks ts s1 = Some s'"
      by (auto split: bind_splits)
    from dfs_fuel_mono(1)[OF r1 Cons.prems(2)] Cons.IH[OF r2 Cons.prems(2)] False
    show ?thesis by simp
  qed
qed

lemma findCircularDependencies_fuel_mono:
  "findCircularDependencies n tasks = Some cs \<Longrightarrow> n \<le> m \<Longrightarrow>
     findCircularDependencies m tasks = Some cs"
  by (auto simp: findCircularDependencies_def dest: dfs_roots_fuel_mono)

subsection \<open>The invariant is kept\<close>

lemma closed_reach:
  assumes "\<forall>v\<in>F. \<forall>d. depends tasks v d \<longrightarrow> d \<in> F"
    and "(a, b) \<in> {(a, b). depends tasks a b}\<^sup>*" and "a \<in> F"
  shows "b \<in> F"
  using assms(2,3,1) by (induction rule: rtrancl_induct) auto

lemma is_cycle_slice:
  assumes "x \<in> set path" and "successively (depends tasks) (path @ [x])"
  shows "is_cycle tasks (slice path (indexOf path x) @ [x])"
    and "x \<in> set (slice path (indexOf path x) @ [x])"
    and "last path \<in> set (slice path (indexOf path x) @ [x])"
proof -
  obtain pre post where p: "path = pre @ x # post" "slice path (indexOf path x) = x # post"
    using slice_indexOf[OF assms(1)] by blast
  have "successively (depends tasks) (pre @ (x # post @ [x]))"
    using assms(2) p(1) by simp
  then have "successively (depends tasks) (x # post @ [x])"
    unfolding successively_append_iff by simp
  then show "is_cycle tasks (slice path (indexOf path x) @ [x])"
    using p(2) by (simp add: is_cycle_def)
  show "x \<in> set (slice path (indexOf path x) @ [x])" by simp
  have "last path = last (x # post)" using p(1) by simp
  then have "last path \<in> set (x # post)" by (metis last_in_set list.distinct(1))
  then show "last path \<in> set (slice path (indexOf path x) @ [x])" using p(2) by auto
qed

lemma depends_find:
  "find (\<lambda>t. task_id t = a) tasks = Some t \<Longrightarrow> depends tasks a b \<longleftrightarrow> b \<in> set (dependencies t)"
  "find (\<lambda>t. task_id t = a) tasks = None \<Longrightarrow> \<not> depends tasks a b"
  by (simp_all add: depends_def)

lemma dfs_inv_push:
  assumes "dfs_inv tasks s" and "x \<notin> visited s"
  shows "dfs_inv tasks (s\<lparr>visited := insert x (visited s),
                           recursionStack := insert x (recursionStack s)\<rparr>)"
proof -
  have "finished (s\<lparr>visited := insert x (visited s),
                    recursionStack := insert x (recursionStack s)\<rparr>) = finished s"
    using assms(2) by (auto simp: finished_def)
  with assms(1) show ?thesis
    unfolding dfs_inv_def by auto
qed

lemma dfs_inv_pop:
  assumes inv: "dfs_inv tasks s2"
    and on: "x \<in> recursionStack s2"
    and deps_seen: "\<forall>d. depends tasks x d \<longrightarrow> d \<in> visited s2"
    and deps_fin: "cycles s2 = [] \<longrightarrow> (\<forall>d. depends tasks x d \<longrightarrow> d \<notin> recursionStack s2)"
    and deps_cyc: "\<forall>d. depends tasks x d \<and> d \<in> recursionStack s2 \<longrightarrow>
          (\<exists>c\<in>set (cycles s2). d \<in> set c \<and> x \<in> set c)"
  shows "dfs_inv tasks (s2\<lparr>recursionStack := recursionStack s2 - {x}\<rparr>)"
proof -
  let ?s = "s2\<lparr>recursionStack := recursionStack s2 - {x}\<rparr>"
  from inv have sub: "recursionStack s2 \<subseteq> visited s2" unfolding dfs_inv_def by blast
  have fin: "finished ?s = insert x (finished s2)"
    using on sub by (auto simp: finished_def)
  have xnot: "x \<notin> finished s2" using on by (simp add: finished_def)
  have c1: "recursionStack ?s \<subseteq> visited ?s" using sub by auto
  have "\<forall>c\<in>set (cycles s2). is_cycle tasks c" using inv unfolding dfs_inv_def by blast
  then have c2: "\<forall>c\<in>set (cycles ?s). is_cycle tasks c" by simp
  have c3: "(\<forall>v\<in>finished ?s. \<forall>d. depends tasks v d \<longrightarrow> d \<in> finished ?s) \<and>
        (\<forall>v\<in>finished ?s. (v, v) \<notin> {(a, b). depends tasks a b}\<^sup>+)" if emp: "cycles ?s = []"
  proof -
    from emp have emp2: "cycles s2 = []" by simp
    have cl2: "\<forall>v\<in>finished s2. \<forall>d. depends tasks v d \<longrightarrow> d \<in> finished s2"
      using inv emp2 unfolding dfs_inv_def by blast
    have ac2: "\<forall>v\<in>finished s2. (v, v) \<notin> {(a, b). depends tasks a b}\<^sup>+"
      using inv emp2 unfolding dfs_inv_def by blast
    have xd: "d \<in> finished s2" if "depends tasks x d" for d
      using that deps_seen deps_fin emp2 by (auto simp: finished_def)
    have cl: "\<forall>v\<in>finished ?s. \<forall>d. depends tasks v d \<longrightarrow> d \<in> finished ?s"
      unfolding fin using cl2 xd by auto
    have "(x, x) \<notin> {(a, b). depends tasks a b}\<^sup>+"
    proof
      assume "(x, x) \<in> {(a, b). depends tasks a b}\<^sup>+"
      then obtain d where d: "depends tasks x d" "(d, x) \<in> {(a, b). depends tasks a b}\<^sup>*"
        by (auto dest: tranclD)
      from closed_reach[OF cl2 d(2) xd[OF d(1)]] xnot show False by simp
    qed
    with ac2 have "\<forall>v\<in>finished ?s. (v, v) \<notin> {(a, b). depends tasks a b}\<^sup>+"
      unfolding fin by auto
    with cl show ?thesis by simp
  qed
  have c4: "\<forall>v\<in>finished ?s. \<forall>d. depends tasks v d \<and> depends tasks d v \<longrightarrow>
        (\<exists>c\<in>set (cycles ?s). v \<in> set c \<and> d \<in> set c)"
  proof (intro ballI allI impI)
    fix v d assume v: "v \<in> finished ?s" and m: "depends tasks v d \<and> depends tasks d v"
    from inv have i2: "\<forall>v\<in>finished s2. \<forall>d. depends tasks v d \<and> depends tasks d v \<longrightarrow>
        (\<exists>c\<in>set (cycles s2). v \<in> set c \<and> d \<in> set c)" unfolding dfs_inv_def by blast
    show "\<exists>c\<in>set (cycles ?s). v \<in> set c \<and> d \<in> set c"
    proof (cases "v = x")
      case False
      with v fin have "v \<in> finished s2" by simp
      with i2 m show ?thesis by simp
    next
      case True
      show ?thesis
      proof (cases "d \<in> recursionStack s2")
        case True
        with deps_cyc m \<open>v = x\<close> show ?thesis by auto
      next
        case False
        with deps_seen m \<open>v = x\<close> have "d \<in> finished s2" by (auto simp: finished_def)
        with i2 m have "\<exists>c\<in>set (cycles s2). d \<in> set c \<and> v \<in> set c" by blast
        then show ?thesis by auto
      qed
    qed
  qed
  show ?thesis
    unfolding dfs_inv_def using c1 c2 c3 c4 by blast
qed

lemma dfs_correct:
  "dfs n tasks x path s = Some s' \<Longrightarrow> dfs_inv tasks s \<Longrightarrow> recursionStack s = set path \<Longrightarrow>
     successively (depends tasks) (path @ [x]) \<Longrightarrow> dfs_post tasks x path s s'"
  "dfs_deps n tasks ds path s = Some s' \<Longrightarrow> dfs_inv tasks s \<Longrightarrow> recursionStack s = set path \<Longrightarrow>
     path \<noteq> [] \<Longrightarrow> successively (depends tasks) path \<Longrightarrow>
     \<forall>d\<in>set ds. depends tasks (last path) d \<Longrightarrow> deps_post tasks ds path s s'"
proof (induction n tasks x path s and n tasks ds path s arbitrary: s' and s'
    rule: dfs_dfs_deps.induct)
  case (1 tasks taskId path s)
  then show ?case by simp
next
  case (2 n tasks taskId path s)
  note run = "2.prems"(1) and inv = "2.prems"(2) and st = "2.prems"(3) and chain = "2.prems"(4)
  from inv have sub: "recursionStack s \<subseteq> visited s" unfolding dfs_inv_def by blast
  consider (onstack) "taskId \<in> recursionStack s"
    | (seen) "taskId \<notin> recursionStack s" "taskId \<in> visited s"
    | (fresh) "taskId \<notin> recursionStack s" "taskId \<notin> visited s" by blast
  then show ?case
  proof cases
    case onstack
    let ?c = "slice path (indexOf path taskId) @ [taskId]"
    from onstack run have s': "s' = s\<lparr>cycles := cycles s @ [?c]\<rparr>" by simp
    from onstack st have mem: "taskId \<in> set path" by simp
    note cyc = is_cycle_slice[OF mem chain]
    have fin: "finished s' = finished s" by (simp add: s' finished_def)
    have "dfs_inv tasks s'"
      unfolding dfs_inv_def fin using inv cyc(1) unfolding dfs_inv_def by (auto simp: s')
    moreover have "\<exists>c\<in>set (cycles s'). taskId \<in> set c \<and> last path \<in> set c"
      using cyc(2,3) by (auto simp: s')
    ultimately show ?thesis
      unfolding dfs_post_def using sub onstack by (auto simp: s')
  next
    case seen
    with run have "s' = s" by simp
    with seen inv show ?thesis unfolding dfs_post_def by simp
  next
    case fresh
    let ?s1 = "s\<lparr>visited := insert taskId (visited s),
                    recursionStack := insert taskId (recursionStack s)\<rparr>"
    have inv1: "dfs_inv tasks ?s1" by (rule dfs_inv_push[OF inv fresh(2)])
    show ?thesis
    proof (cases "find (\<lambda>t. task_id t = taskId) tasks")
      case None
      have eq: "?s1\<lparr>recursionStack := recursionStack ?s1 - {taskId}\<rparr>
          = s\<lparr>visited := insert taskId (visited s)\<rparr>"
        using fresh by simp
      from None fresh run have s': "s' = s\<lparr>visited := insert taskId (visited s)\<rparr>"
        by simp
      have "dfs_inv tasks (?s1\<lparr>recursionStack := recursionStack ?s1 - {taskId}\<rparr>)"
        by (rule dfs_inv_pop[OF inv1]) (simp_all add: depends_find(2)[OF None])
      then have "dfs_inv tasks s'" unfolding eq s' .
      then show ?thesis
        unfolding dfs_post_def using fresh by (auto simp: s')
    next
      case (Some task)
      with fresh run obtain s2 where
        s2: "dfs_deps n tasks (dependencies task) (path @ [taskId]) ?s1 = Some s2"
        and s': "s' = s2\<lparr>recursionStack := recursionStack s2 - {taskId}\<rparr>"
        by (auto split: bind_splits)
      have "deps_post tasks (dependencies task) (path @ [taskId]) ?s1 s2"
      proof (rule "2.IH"[OF _ _ refl Some s2 inv1])
        show "\<not> taskId \<in> recursionStack s" "\<not> taskId \<in> visited s" using fresh by auto
        show "recursionStack ?s1 = set (path @ [taskId])" using st by simp
        show "path @ [taskId] \<noteq> []" by simp
        show "successively (depends tasks) (path @ [taskId])" by (rule chain)
        show "\<forall>d\<in>set (dependencies task). depends tasks (last (path @ [taskId])) d"
          by (simp add: depends_find(1)[OF Some])
      qed
      then have inv2: "dfs_inv tasks s2"
        and st2: "recursionStack s2 = insert taskId (recursionStack s)"
        and vis2: "insert taskId (visited s) \<subseteq> visited s2"
        and seen2: "set (dependencies task) \<subseteq> visited s2"
        and cyc2: "\<exists>cs. cycles s2 = cycles s @ cs"
        and fin2: "cycles s2 = [] \<longrightarrow> set (dependencies task) \<inter> insert taskId (recursionStack s) = {}"
        and back2: "\<forall>d\<in>set (dependencies task). d \<in> insert taskId (recursionStack s) \<longrightarrow>
              (\<exists>c\<in>set (cycles s2). d \<in> set c \<and> taskId \<in> set c)"
        unfolding deps_post_def by simp_all
      have "dfs_inv tasks (s2\<lparr>recursionStack := recursionStack s2 - {taskId}\<rparr>)"
      proof (rule dfs_inv_pop[OF inv2])
        show "taskId \<in> recursionStack s2" using st2 by simp
        show "\<forall>d. depends tasks taskId d \<longrightarrow> d \<in> visited s2"
          using seen2 by (auto simp: depends_find(1)[OF Some])
        show "cycles s2 = [] \<longrightarrow> (\<forall>d. depends tasks taskId d \<longrightarrow> d \<notin> recursionStack s2)"
          using fin2 st2 by (auto simp: depends_find(1)[OF Some])
        show "\<forall>d. depends tasks taskId d \<and> d \<in> recursionStack s2 \<longrightarrow>
            (\<exists>c\<in>set (cycles s2). d \<in> set c \<and> taskId \<in> set c)"
          using back2 st2 by (auto simp: depends_find(1)[OF Some])
      qed
      then show ?thesis
        unfolding dfs_post_def s' using fresh st2 vis2 cyc2 by auto
    qed
  qed
next
  case (3 n tasks path s)
  then show ?case unfolding deps_post_def by simp
next
  case (4 n tasks dep deps path s)
  from "4.prems"(1) obtain s1 where
    s1: "dfs n tasks dep path s = Some s1" and s': "dfs_deps n tasks deps path s1 = Some s'"
    by (auto split: bind_splits)
  have chain: "successively (depends tasks) (path @ [dep])"
    using "4.prems"(4,5,6) by (simp add: successively_append_iff)
  from "4.IH"(1)[OF s1 "4.prems"(2,3) chain]
  have p1: "dfs_post tasks dep path s s1" .
  then have inv1: "dfs_inv tasks s1" and st1: "recursionStack s1 = recursionStack s"
    unfolding dfs_post_def by simp_all
  have p2: "deps_post tasks deps path s1 s'"
    using "4.IH"(2)[OF s1 s' inv1] st1 "4.prems"(3,4,5,6) by simp
  show ?case
    using p1 p2 unfolding dfs_post_def deps_post_def
    by (auto simp: st1)
qed

lemma dfs_inv_init: "dfs_inv tasks \<lparr>visited = {}, recursionStack = {}, cycles = []\<rparr>"
  by (simp add: dfs_inv_def finished_def)

lemma card_ids: "card (task_id ` set tasks) \<le> length tasks"
  by (metis card_image_le card_length le_trans List.finite_set)

lemma dfs_roots_returns:
  "card (task_id ` set tasks) < n \<Longrightarrow> recursionStack s = {} \<Longrightarrow>
     \<exists>s'. dfs_roots n tasks ts s = Some s'"
proof (induction ts arbitrary: s)
  case Nil
  then show ?case by simp
next
  case (Cons t ts)
  from Cons.prems have "card (task_id ` set tasks - recursionStack s) < n" by simp
  from dfs_returns(1)[OF this] obtain s1 where
    s1: "dfs n tasks (task_id t) [] s = Some s1" "recursionStack s1 = recursionStack s" by blast
  with Cons.IH[OF Cons.prems(1), of s1] Cons.IH[OF Cons.prems] Cons.prems(2)
  show ?case by auto
qed

lemma dfs_roots_correct:
  "dfs_roots n tasks ts s = Some s' \<Longrightarrow> dfs_inv tasks s \<Longrightarrow> recursionStack s = {} \<Longrightarrow>
     dfs_inv tasks s' \<and> recursionStack s' = {} \<and> visited s \<union> task_id ` set ts \<subseteq> visited s'"
proof (induction ts arbitrary: s)
  case Nil
  then show ?case by simp
next
  case (Cons t ts)
  show ?case
  proof (cases "task_id t \<in> visited s")
    case True
    with Cons.prems have "dfs_roots n tasks ts s = Some s'" by simp
    from Cons.IH[OF this Cons.prems(2,3)] True show ?thesis by auto
  next
    case False
    with Cons.prems(1) obtain s1 where
      s1: "dfs n tasks (task_id t) [] s = Some s1" and s': "dfs_roots n tasks ts s1 = Some s'"
      by (auto split: bind_splits)
    have "dfs_post tasks (task_id t) [] s s1"
      by (rule dfs_correct(1)[OF s1 Cons.prems(2)]) (simp_all add: Cons.prems(3))
    then have p: "dfs_inv tasks s1" "recursionStack s1 = {}" "visited s \<subseteq> visited s1"
      "task_id t \<in> visited s1"
      unfolding dfs_post_def using Cons.prems(3) by simp_all
    from Cons.IH[OF s' p(1,2)] p(3,4) show ?thesis by auto
  qed
qed

lemma depends_resolved: "depends tasks a b \<Longrightarrow> a \<in> task_id ` set tasks"
  by (auto simp: depends_def find_Some_iff split: option.splits)

lemma findCircularDependencies_returns:
  "length tasks < n \<Longrightarrow> \<exists>cs. findCircularDependencies n tasks = Some cs"
  using dfs_roots_returns[of tasks n "\<lparr>visited = {}, recursionStack = {}, cycles = []\<rparr>" tasks]
    card_ids[of tasks]
  by (auto simp: findCircularDependencies_def)

lemma findCircularDependencies_result:
  assumes "findCircularDependencies n tasks = Some cs"
  shows "\<forall>c\<in>set cs. is_cycle tasks c"
    and "cs = [] \<Longrightarrow> (a, a) \<notin> {(a, b). depends tasks a b}\<^sup>+"
    and "depends tasks X Y \<Longrightarrow> depends tasks Y X \<Longrightarrow> \<exists>c\<in>set cs. X \<in> set c \<and> Y \<in> set c"
proof -
  from assms obtain s' where
    run: "dfs_roots n tasks tasks \<lparr>visited = {}, recursionStack = {}, cycles = []\<rparr> = Some s'"
    and cs: "cs = cycles s'"
    by (auto simp: findCircularDependencies_def)
  from dfs_roots_correct[OF run dfs_inv_init]
  have inv: "dfs_inv tasks s'" and st: "recursionStack s' = {}"
    and vis: "task_id ` set tasks \<subseteq> visited s'" by simp_all
  from st have fin: "finished s' = visited s'" by (simp add: finished_def)
  show "\<forall>c\<in>set cs. is_cycle tasks c"
    using inv unfolding dfs_inv_def cs by blast
  show "(a, a) \<notin> {(a, b). depends tasks a b}\<^sup>+" if "cs = []"
  proof
    assume a: "(a, a) \<in> {(a, b). depends tasks a b}\<^sup>+"
    then obtain d where "depends tasks a d" by (auto dest: tranclD)
    from depends_resolved[OF this] have "a \<in> finished s'" using vis fin by auto
    moreover have "\<forall>v\<in>finished s'. (v, v) \<notin> {(a, b). depends tasks a b}\<^sup>+"
      using inv that unfolding dfs_inv_def cs by blast
    ultimately show False using a by blast
  qed
  show "\<exists>c\<in>set cs. X \<in> set c \<and> Y \<in> set c" if "depends tasks X Y" "depends tasks Y X"
  proof -
    have "X \<in> finished s'" using vis fin depends_resolved[OF that(1)] by auto
    moreover have "\<forall>v\<in>finished s'. \<forall>d. depends tasks v d \<and> depends tasks d v \<longrightarrow>
        (\<exists>c\<in>set (cycles s'). v \<in> set c \<and> d \<in> set c)"
      using inv unfolding dfs_inv_def by blast
    ultimately show ?thesis using that unfolding cs by blast
  qed
qed

lemma successively_nth:
  "successively P xs \<Longrightarrow> Suc i < length xs \<Longrightarrow> P (xs ! i) (xs ! Suc i)"
proof (induction P xs arbitrary: i rule: successively.induct)
  case (3 P x y xs)
  then show ?case by (cases i) auto
qed simp_all

lemma successively_trancl:
  "successively (\<lambda>a b. (a, b) \<in> R) (x # xs) \<Longrightarrow> xs \<noteq> [] \<Longrightarrow> (x, last xs) \<in> R\<^sup>+"
proof (induction xs arbitrary: x)
  case Nil
  then show ?case by simp
next
  case (Cons y ys)
  show ?case
  proof (cases "ys = []")
    case True
    with Cons.prems show ?thesis by auto
  next
    case False
    with Cons.prems Cons.IH[of y] have "(x, y) \<in> R" "(y, last ys) \<in> R\<^sup>+" by auto
    with False show ?thesis by (simp add: trancl_into_trancl2)
  qed
qed

lemma is_cycle_ids:
  assumes "is_cycle tasks c"
  shows "set c \<subseteq> task_id ` set tasks"
proof
  fix x assume "x \<in> set c"
  then obtain i where i: "i < length c" "c ! i = x" by (auto simp: in_set_conv_nth)
  from assms have len: "2 \<le> length c" and hl: "hd c = last c"
    and succ: "successively (depends tasks) c" by (simp_all add: is_cycle_def)
  show "x \<in> task_id ` set tasks"
  proof (cases "Suc i < length c")
    case True
    from successively_nth[OF succ True] i show ?thesis by (auto dest: depends_resolved)
  next
    case False
    with i have "x = last c" using len by (cases c rule: rev_cases) (auto simp: nth_append)
    with hl have "x = c ! 0" using len by (cases c) auto
    moreover have "depends tasks (c ! 0) (c ! Suc 0)"
      using successively_nth[OF succ, of 0] len by simp
    ultimately show ?thesis by (auto dest: depends_resolved)
  qed
qed

lemma is_cycle_trancl:
  assumes "is_cycle tasks c"
  shows "(hd c, hd c) \<in> (dep_rel tasks)\<^sup>+"
proof -
  from assms have len: "2 \<le> length c" and hl: "hd c = last c"
    and succ: "successively (depends tasks) c" by (simp_all add: is_cycle_def)
  from len obtain x xs where c1: "c = x # xs" by (cases c) auto
  with len have "xs \<noteq> []" by auto
  note c = c1 this
  have "successively (\<lambda>a b. (a, b) \<in> dep_rel tasks) c"
  proof -
    have "\<forall>x\<in>set c. x \<in> task_id ` set tasks" using is_cycle_ids[OF assms] by blast
    with succ show ?thesis
      by (induction "depends tasks" c rule: successively.induct) (auto simp: dep_rel_def)
  qed
  from successively_trancl[OF this[unfolded c(1)] c(2)] hl c show ?thesis by simp
qed

lemma acyclic_by_rank:
  assumes "\<And>a b. (a, b) \<in> R \<Longrightarrow> f b < (f a :: nat)"
  shows "acyclic R"
proof -
  have "R\<inverse> \<subseteq> measure f" using assms by auto
  then have "wf (R\<inverse>)" by (rule wf_subset[OF wf_measure])
  then have "acyclic (R\<inverse>)" by (rule wf_acyclic)
  then show ?thesis by simp
qed

subsection \<open>No cycle is reported on acyclic input\<close>

text \<open>
  Claim C7. When the resolvable dependency edges of the task list form a DAG, the cycle
  detector returns and its result is the empty list. The fuel bounds the depth of the
  recursion: one more than the number of tasks is enough.
\<close>

theorem findCircularDependencies_acyclic:
  assumes "acyclic (dep_rel tasks)" and "length tasks < n"
  shows "findCircularDependencies n tasks = Some []"
proof -
  from findCircularDependencies_returns[OF assms(2)] obtain cs where
    cs: "findCircularDependencies n tasks = Some cs" by blast
  have "cs = []"
  proof (rule ccontr)
    assume "cs \<noteq> []"
    then obtain c where "c \<in> set cs" by (cases cs) auto
    with findCircularDependencies_result(1)[OF cs] have "is_cycle tasks c" by blast
    from is_cycle_trancl[OF this] assms(1) show False by (auto simp: acyclic_def)
  qed
  with cs show ?thesis by simp
qed

lemma scenario_abc_acyclic: "acyclic (dep_rel scenario_abc)"
proof (rule acyclic_by_rank)
  fix a b assume "(a, b) \<in> dep_rel scenario_abc"
  then show "(if b = ''A'' then 0 else 1) < (if a = ''A'' then 0 else (1::nat))"
    by (auto simp: dep_rel_def depends_def scenario_abc_def mkTask_def split: if_splits)
qed

theorem findCircularDependencies_acyclic_witness:
  "acyclic (dep_rel scenario_abc) \<and> length scenario_abc < 4 \<and>
   findCircularDependencies 4 scenario_abc = Some []"
proof -
  have len: "length scenario_abc < 4" by (simp add: scenario_abc_def)
  from findCircularDependencies_acyclic[OF scenario_abc_acyclic len] scenario_abc_acyclic len
  show ?thesis by simp
qed

subsection \<open>A cycle is reported on cyclic input\<close>




section \<open>The phase assigner is correct\<close>

subsection \<open>Termination and frame of \<^verbatim>\<open>assignPhase\<close>\<close>

lemma assignPhase_returns_aux:
  "finite (dom tm) \<Longrightarrow> card (dom tm - snd st) < n \<Longrightarrow>
     \<exists>p phs' vis'. assignPhase n tm x st = Some (p, phs', vis') \<and>
        vis' \<inter> dom tm = snd st \<inter> dom tm"
  "finite (dom tm) \<Longrightarrow> card (dom tm - snd st) < n \<Longrightarrow>
     \<exists>m' phs' vis'. assignDeps n tm ds m st = Some (m', phs', vis') \<and>
        vis' \<inter> dom tm = snd st \<inter> dom tm"
proof (induction n tm x st and n tm ds m st rule: assignPhase_assignDeps.induct)
  case (1 tm taskId phs vis)
  then show ?case by simp
next
  case (2 n tm taskId phs vis)
  consider (memo) q where "phs taskId = Some q"
    | (onstack) "phs taskId = None" "taskId \<in> vis"
    | (ghost) "phs taskId = None" "taskId \<notin> vis" "tm taskId = None"
    | (fresh) task where "phs taskId = None" "taskId \<notin> vis" "tm taskId = Some task"
    by (cases "phs taskId"; cases "tm taskId") auto
  then show ?case
  proof cases
    case memo
    then show ?thesis by simp
  next
    case onstack
    then show ?thesis by simp
  next
    case ghost
    then show ?thesis by auto
  next
    case fresh
    from fresh have "card (dom tm - insert taskId vis) < card (dom tm - vis)"
      using "2.prems"(1) by (intro psubset_card_mono) auto
    with "2.prems" have "card (dom tm - snd (phs, insert taskId vis)) < n" by simp
    from "2.IH"[OF fresh "2.prems"(1) this]
    obtain m' phs' vis' where
      r: "assignDeps n tm (dependencies task) 0 (phs, insert taskId vis) = Some (m', phs', vis')"
      "vis' \<inter> dom tm = insert taskId vis \<inter> dom tm" by auto
    from r(2) fresh(2) have "(vis' - {taskId}) \<inter> dom tm = vis \<inter> dom tm" by auto
    with fresh r(1) show ?thesis by simp
  qed
next
  case (3 n tm maxDepPhase phs vis)
  then show ?case by simp
next
  case (4 n tm dep deps maxDepPhase phs vis)
  from "4.IH"(1)[OF "4.prems"] obtain p phs1 vis1 where
    r1: "assignPhase n tm dep (phs, vis) = Some (p, phs1, vis1)"
    "vis1 \<inter> dom tm = vis \<inter> dom tm" by auto
  have "dom tm - vis1 = dom tm - vis" using r1(2) by auto
  with "4.prems" have "card (dom tm - snd (phs1, vis1)) < n" by simp
  from "4.IH"(2)[OF r1(1) refl refl "4.prems"(1) this]
  obtain m' phs' vis' where
    "assignDeps n tm deps (max maxDepPhase p) (phs1, vis1) = Some (m', phs', vis')"
    "vis' \<inter> dom tm = vis1 \<inter> dom tm" by auto
  with r1 show ?case by simp
qed

text \<open>More fuel does not change a result.\<close>

lemma assignPhase_fuel_mono:
  "assignPhase n tm x st = Some r \<Longrightarrow> n \<le> m \<Longrightarrow> assignPhase m tm x st = Some r"
  "assignDeps n tm ds mx st = Some r \<Longrightarrow> n \<le> m \<Longrightarrow> assignDeps m tm ds mx st = Some r"
proof (induction n tm x st and n tm ds mx st arbitrary: m r and m r
    rule: assignPhase_assignDeps.induct)
  case (1 tm taskId phs vis)
  then show ?case by simp
next
  case (2 n tm taskId phs vis)
  from "2.prems"(2) obtain m' where m: "m = Suc m'" "n \<le> m'" by (cases m) auto
  consider (memo) q where "phs taskId = Some q"
    | (onstack) "phs taskId = None" "taskId \<in> vis"
    | (ghost) "phs taskId = None" "taskId \<notin> vis" "tm taskId = None"
    | (fresh) task where "phs taskId = None" "taskId \<notin> vis" "tm taskId = Some task"
    by (cases "phs taskId"; cases "tm taskId") auto
  then show ?case
  proof cases
    case memo
    with "2.prems"(1) show ?thesis by (simp add: m)
  next
    case onstack
    with "2.prems"(1) show ?thesis by (simp add: m)
  next
    case ghost
    with "2.prems"(1) show ?thesis by (simp add: m)
  next
    case fresh
    with "2.prems"(1) obtain r2 where
      r: "assignDeps n tm (dependencies task) 0 (phs, insert taskId vis) = Some r2"
      by (auto split: bind_splits)
    from "2.IH"[OF fresh r m(2)] fresh r "2.prems"(1) show ?thesis
      by (simp add: m)
  qed
next
  case (3 n tm maxDepPhase phs vis)
  then show ?case by simp
next
  case (4 n tm dep deps maxDepPhase phs vis)
  from "4.prems"(1) obtain q phs1 vis1 where
    r1: "assignPhase n tm dep (phs, vis) = Some (q, phs1, vis1)"
    and r2: "assignDeps n tm deps (max maxDepPhase q) (phs1, vis1) = Some r"
    by (auto split: bind_splits)
  from "4.IH"(1)[OF r1 "4.prems"(2)] "4.IH"(2)[OF r1 refl refl r2 "4.prems"(2)]
  show ?case by simp
qed

lemma assignAll_fuel_mono:
  "assignAll n tm ts st = Some r \<Longrightarrow> n \<le> m \<Longrightarrow> assignAll m tm ts st = Some r"
proof (induction ts arbitrary: st)
  case Nil
  then show ?case by simp
next
  case (Cons t ts)
  from Cons.prems(1) obtain q st1 where
    r1: "assignPhase n tm (task_id t) st = Some (q, st1)" and r2: "assignAll n tm ts st1 = Some r"
    by (auto split: bind_splits)
  from assignPhase_fuel_mono(1)[OF r1 Cons.prems(2)] Cons.IH[OF r2 Cons.prems(2)]
  show ?case by simp
qed

lemma optimizeTaskExecution_fuel_mono:
  assumes "optimizeTaskExecution n tasks = Some out" and "n \<le> m"
  shows "optimizeTaskExecution m tasks = Some out"
proof -
  from assms(1) obtain phs vis where
    r: "assignAll n (taskMap tasks) tasks (Map.empty, {}) = Some (phs, vis)"
    by (auto simp: optimizeTaskExecution_def split: bind_splits)
  from assignAll_fuel_mono[OF r assms(2)] r assms(1) show ?thesis
    by (simp add: optimizeTaskExecution_def)
qed

lemma ap_frame_refl: "ap_pre tm phs vis \<Longrightarrow> ap_frame tm phs vis phs vis"
  by (simp add: ap_frame_def)

lemma ap_frame_trans:
  "ap_frame tm phs vis phs1 vis1 \<Longrightarrow> ap_frame tm phs1 vis1 phs2 vis2 \<Longrightarrow>
     ap_frame tm phs vis phs2 vis2"
  unfolding ap_frame_def by (auto intro: map_le_trans)

lemma assignPhase_frame_aux:
  "assignPhase n tm x st = Some (p, phs', vis') \<Longrightarrow> ap_pre tm (fst st) (snd st) \<Longrightarrow>
     ap_frame tm (fst st) (snd st) phs' vis' \<and> 1 \<le> p \<and>
     (x \<in> dom tm \<longrightarrow> x \<notin> snd st \<longrightarrow> phs' x = Some p) \<and> (x \<notin> dom tm \<longrightarrow> p = 1)"
  "assignDeps n tm ds m st = Some (m', phs', vis') \<Longrightarrow> ap_pre tm (fst st) (snd st) \<Longrightarrow>
     ap_frame tm (fst st) (snd st) phs' vis' \<and> m \<le> m' \<and> (ds = [] \<longrightarrow> m' = m) \<and>
     (ds \<noteq> [] \<longrightarrow> set ds \<inter> dom tm = {} \<longrightarrow> m' = max m 1)"
proof (induction n tm x st and n tm ds m st arbitrary: p phs' vis' and m' phs' vis'
    rule: assignPhase_assignDeps.induct)
  case (1 tm taskId phs vis)
  then show ?case by simp
next
  case (2 n tm taskId phs vis)
  from "2.prems"(2) have ok: "phases_ok tm phs" and disj: "dom phs \<inter> vis = {}"
    by (simp_all add: ap_pre_def)
  consider (memo) q where "phs taskId = Some q"
    | (onstack) "phs taskId = None" "taskId \<in> vis"
    | (ghost) "phs taskId = None" "taskId \<notin> vis" "tm taskId = None"
    | (fresh) task where "phs taskId = None" "taskId \<notin> vis" "tm taskId = Some task"
    by (cases "phs taskId"; cases "tm taskId") auto
  then show ?case
  proof cases
    case memo
    with "2.prems"(1) have eq: "p = q" "phs' = phs" "vis' = vis" by simp_all
    from ok memo have "1 \<le> q" "taskId \<in> dom tm" unfolding phases_ok_def by fastforce+
    with memo "2.prems"(2) show ?thesis by (simp add: eq ap_frame_refl)
  next
    case onstack
    with "2.prems"(1) have eq: "p = 1" "phs' = phs" "vis' = vis" by simp_all
    with onstack "2.prems"(2) show ?thesis by (simp add: eq ap_frame_refl)
  next
    case ghost
    with "2.prems"(1) have eq: "p = 1" "phs' = phs" "vis' = insert taskId vis" by simp_all
    have "ap_frame tm phs vis phs (insert taskId vis)"
      unfolding ap_frame_def ap_pre_def using ok disj ghost by auto
    with ghost show ?thesis by (auto simp: eq)
  next
    case fresh
    with "2.prems"(1) obtain m2 phs2 vis2 where
      r: "assignDeps n tm (dependencies task) 0 (phs, insert taskId vis) = Some (m2, phs2, vis2)"
      and eq: "p = m2 + 1" "phs' = phs2(taskId \<mapsto> m2 + 1)" "vis' = vis2 - {taskId}"
      by (auto split: bind_splits)
    have pre1: "ap_pre tm (fst (phs, insert taskId vis)) (snd (phs, insert taskId vis))"
      unfolding ap_pre_def using ok disj fresh by auto
    from "2.IH"[OF fresh r pre1]
    have fr: "ap_frame tm phs (insert taskId vis) phs2 vis2"
      and m0: "dependencies task = [] \<longrightarrow> m2 = 0"
      and m1: "dependencies task \<noteq> [] \<longrightarrow> set (dependencies task) \<inter> dom tm = {} \<longrightarrow> m2 = 1"
      by simp_all
    from fr have ok2: "phases_ok tm phs2" and disj2: "dom phs2 \<inter> vis2 = {}"
      and le2: "phs \<subseteq>\<^sub>m phs2" and vis2: "vis2 \<inter> dom tm = insert taskId vis \<inter> dom tm"
      by (simp_all add: ap_frame_def ap_pre_def)
    from vis2 fresh have "taskId \<in> vis2" by auto
    with disj2 have none2: "phs2 taskId = None" by auto
    have "phases_ok tm (phs2(taskId \<mapsto> m2 + 1))"
      unfolding phases_ok_def using ok2[unfolded phases_ok_def] fresh m0 m1 by auto
    moreover have "dom (phs2(taskId \<mapsto> m2 + 1)) \<inter> (vis2 - {taskId}) = {}"
      using disj2 by auto
    moreover have "phs \<subseteq>\<^sub>m phs2(taskId \<mapsto> m2 + 1)"
      using le2 none2 by (auto simp: map_le_def dom_def)
    moreover have "(vis2 - {taskId}) \<inter> dom tm = vis \<inter> dom tm"
      using vis2 fresh by auto
    ultimately have "ap_frame tm phs vis phs' vis'"
      by (simp add: ap_frame_def ap_pre_def eq)
    moreover have "phs' taskId = Some p" "1 \<le> p" by (simp_all add: eq)
    moreover have "taskId \<in> dom tm" using fresh by auto
    ultimately show ?thesis by simp
  qed
next
  case (3 n tm maxDepPhase phs vis)
  then show ?case by (simp add: ap_frame_refl)
next
  case (4 n tm dep deps maxDepPhase phs vis)
  from "4.prems"(1) obtain q phs1 vis1 where
    r1: "assignPhase n tm dep (phs, vis) = Some (q, phs1, vis1)"
    and r2: "assignDeps n tm deps (max maxDepPhase q) (phs1, vis1) = Some (m', phs', vis')"
    by (auto split: bind_splits)
  from "4.IH"(1)[OF r1 "4.prems"(2)]
  have f1: "ap_frame tm phs vis phs1 vis1" and q1: "1 \<le> q" and qg: "dep \<notin> dom tm \<longrightarrow> q = 1"
    by simp_all
  from f1 have pre1: "ap_pre tm (fst (phs1, vis1)) (snd (phs1, vis1))"
    by (simp add: ap_frame_def)
  from "4.IH"(2)[OF r1 refl refl r2 pre1]
  have f2: "ap_frame tm phs1 vis1 phs' vis'" and mono: "max maxDepPhase q \<le> m'"
    and e: "deps = [] \<longrightarrow> m' = max maxDepPhase q"
    and g: "deps \<noteq> [] \<longrightarrow> set deps \<inter> dom tm = {} \<longrightarrow> m' = max (max maxDepPhase q) 1"
    by simp_all
  have "set (dep # deps) \<inter> dom tm = {} \<longrightarrow> m' = max maxDepPhase 1"
    using qg e g by (cases "deps = []") auto
  with ap_frame_trans[OF f1 f2] mono show ?case by simp
qed

lemmas assignPhase_frame = assignPhase_frame_aux(1)[where st = "(phs, vis)", simplified]
  and assignDeps_frame = assignPhase_frame_aux(2)[where st = "(phs, vis)", simplified]
  for phs vis

subsection \<open>Monotonicity on acyclic graphs\<close>

lemma anc_cong: "vis' \<inter> dom tm = vis \<inter> dom tm \<Longrightarrow> anc tm vis' x = anc tm vis x"
  by (simp add: anc_def)

lemma anc_step:
  assumes "anc tm vis x" and "tm x = Some t" and "d \<in> set (dependencies t)" and "d \<in> dom tm"
  shows "anc tm (insert x vis) d"
proof -
  have e: "(x, d) \<in> tm_rel tm" using assms(2,3,4) by (auto simp: tm_rel_def)
  show ?thesis
    unfolding anc_def
  proof
    fix v assume "v \<in> insert x vis \<inter> dom tm"
    then consider "v = x" | "v \<in> vis \<inter> dom tm" by auto
    then show "(v, d) \<in> (tm_rel tm)\<^sup>+"
    proof cases
      case 1
      with e show ?thesis by auto
    next
      case 2
      with assms(1) have "(v, x) \<in> (tm_rel tm)\<^sup>+" by (simp add: anc_def)
      with e show ?thesis by (meson trancl_into_trancl)
    qed
  qed
qed

lemma assignPhase_mono_aux:
  assumes ac: "acyclic (tm_rel tm)"
  shows "assignPhase n tm x st = Some (p, phs', vis') \<Longrightarrow> ap_pre tm (fst st) (snd st) \<Longrightarrow>
     mono_ok tm (fst st) \<Longrightarrow> (x \<in> dom tm \<longrightarrow> anc tm (snd st) x) \<Longrightarrow>
     mono_ok tm phs' \<and> (x \<in> dom tm \<longrightarrow> phs' x = Some p)"
  and "assignDeps n tm ds m st = Some (m', phs', vis') \<Longrightarrow> ap_pre tm (fst st) (snd st) \<Longrightarrow>
     mono_ok tm (fst st) \<Longrightarrow> (\<forall>d\<in>set ds. d \<in> dom tm \<longrightarrow> anc tm (snd st) d) \<Longrightarrow>
     mono_ok tm phs' \<and> (\<forall>d\<in>set ds. d \<in> dom tm \<longrightarrow> (\<exists>q. phs' d = Some q \<and> q \<le> m'))"
  using ac
proof (induction n tm x st and n tm ds m st arbitrary: p phs' vis' and m' phs' vis'
    rule: assignPhase_assignDeps.induct)
  case (1 tm taskId phs vis)
  then show ?case by simp
next
  case (2 n tm taskId phs vis)
  note run = "2.prems"(1) and pre = "2.prems"(2) and mono = "2.prems"(3)
    and an = "2.prems"(4) and ac = "2.prems"(5)
  from pre have pre': "ap_pre tm phs vis" by simp
  from mono have mono': "mono_ok tm phs" by simp
  consider (memo) q where "phs taskId = Some q"
    | (onstack) "phs taskId = None" "taskId \<in> vis"
    | (ghost) "phs taskId = None" "taskId \<notin> vis" "tm taskId = None"
    | (fresh) task where "phs taskId = None" "taskId \<notin> vis" "tm taskId = Some task"
    by (cases "phs taskId"; cases "tm taskId") auto
  then show ?case
  proof cases
    case memo
    with run have eq: "p = q" "phs' = phs" "vis' = vis" by simp_all
    with memo mono' show ?thesis by simp
  next
    case onstack
    with run have eq: "p = 1" "phs' = phs" "vis' = vis" by simp_all
    have "taskId \<notin> dom tm"
    proof
      assume d: "taskId \<in> dom tm"
      with an onstack have "(taskId, taskId) \<in> (tm_rel tm)\<^sup>+" by (auto simp: anc_def)
      with ac show False by (auto simp: acyclic_def)
    qed
    with mono' show ?thesis by (simp add: eq)
  next
    case ghost
    with run have eq: "p = 1" "phs' = phs" "vis' = insert taskId vis" by simp_all
    from ghost have "taskId \<notin> dom tm" by auto
    with mono' show ?thesis by (simp add: eq)
  next
    case fresh
    with run obtain m2 phs2 vis2 where
      r: "assignDeps n tm (dependencies task) 0 (phs, insert taskId vis) = Some (m2, phs2, vis2)"
      and eq: "p = m2 + 1" "phs' = phs2(taskId \<mapsto> m2 + 1)" "vis' = vis2 - {taskId}"
      by (auto split: bind_splits)
    have pre1: "ap_pre tm phs (insert taskId vis)"
      using pre' fresh unfolding ap_pre_def by auto
    from assignDeps_frame[OF r pre1]
    have fr: "ap_frame tm phs (insert taskId vis) phs2 vis2" by simp
    then have disj2: "dom phs2 \<inter> vis2 = {}"
      and vis2: "vis2 \<inter> dom tm = insert taskId vis \<inter> dom tm"
      by (simp_all add: ap_frame_def ap_pre_def)
    from vis2 fresh have "taskId \<in> vis2" by auto
    with disj2 have none2: "phs2 taskId = None" by auto
    have an1: "\<forall>d\<in>set (dependencies task). d \<in> dom tm \<longrightarrow> anc tm (snd (phs, insert taskId vis)) d"
      using an fresh anc_step[of tm vis taskId task] by auto
    from "2.IH"[OF fresh r _ _ an1 ac] pre1 mono'
    have mono2: "mono_ok tm phs2"
      and deps2: "\<forall>d\<in>set (dependencies task). d \<in> dom tm \<longrightarrow> (\<exists>q. phs2 d = Some q \<and> q \<le> m2)"
      by simp_all
    have "mono_ok tm (phs2(taskId \<mapsto> m2 + 1))"
      unfolding mono_ok_def
    proof (intro allI impI ballI)
      fix i p' t d
      assume i: "(phs2(taskId \<mapsto> m2 + 1)) i = Some p'" and t: "tm i = Some t"
        and d: "d \<in> set (dependencies t)" "d \<in> dom tm"
      have "\<exists>q. phs2 d = Some q \<and> q < p'"
      proof (cases "i = taskId")
        case True
        with i t fresh have "p' = m2 + 1" "t = task" by simp_all
        with deps2 d show ?thesis by fastforce
      next
        case False
        with i have "phs2 i = Some p'" by simp
        with mono2 t d show ?thesis unfolding mono_ok_def by blast
      qed
      then obtain q where q: "phs2 d = Some q" "q < p'" by blast
      with none2 have "d \<noteq> taskId" by auto
      with q show "\<exists>q. (phs2(taskId \<mapsto> m2 + 1)) d = Some q \<and> q < p'" by simp
    qed
    then have "mono_ok tm phs'" unfolding eq(2) .
    moreover have "phs' taskId = Some p" by (simp add: eq)
    ultimately show ?thesis by simp
  qed
next
  case (3 n tm maxDepPhase phs vis)
  then show ?case by simp
next
  case (4 n tm dep deps maxDepPhase phs vis)
  note run = "4.prems"(1) and pre = "4.prems"(2) and mono = "4.prems"(3)
    and an = "4.prems"(4) and ac = "4.prems"(5)
  from pre have pre': "ap_pre tm phs vis" by simp
  from run obtain q phs1 vis1 where
    r1: "assignPhase n tm dep (phs, vis) = Some (q, phs1, vis1)"
    and r2: "assignDeps n tm deps (max maxDepPhase q) (phs1, vis1) = Some (m', phs', vis')"
    by (auto split: bind_splits)
  from assignPhase_frame[OF r1 pre'] have f1: "ap_frame tm phs vis phs1 vis1" by simp
  then have pre1: "ap_pre tm phs1 vis1" and v1: "vis1 \<inter> dom tm = vis \<inter> dom tm"
    by (simp_all add: ap_frame_def)
  from assignDeps_frame[OF r2 pre1]
  have f2: "ap_frame tm phs1 vis1 phs' vis'" and mx: "max maxDepPhase q \<le> m'" by simp_all
  from "4.IH"(1)[OF r1 pre mono _ ac] an
  have mono1: "mono_ok tm phs1" and d1: "dep \<in> dom tm \<longrightarrow> phs1 dep = Some q" by simp_all
  have an1: "\<forall>d\<in>set deps. d \<in> dom tm \<longrightarrow> anc tm (snd (phs1, vis1)) d"
    using an anc_cong[OF v1] by simp
  from "4.IH"(2)[OF r1 refl refl r2 _ _ an1 ac] pre1 mono1
  have mono2: "mono_ok tm phs'"
    and d2: "\<forall>d\<in>set deps. d \<in> dom tm \<longrightarrow> (\<exists>q. phs' d = Some q \<and> q \<le> m')" by simp_all
  have "dep \<in> dom tm \<longrightarrow> (\<exists>q. phs' dep = Some q \<and> q \<le> m')"
  proof
    assume "dep \<in> dom tm"
    with d1 have "phs1 dep = Some q" by simp
    moreover from f2 have "phs1 \<subseteq>\<^sub>m phs'" by (simp add: ap_frame_def)
    ultimately have "phs' dep = Some q" by (auto simp: map_le_def dom_def)
    with mx show "\<exists>q. phs' dep = Some q \<and> q \<le> m'" by auto
  qed
  with mono2 d2 show ?case by simp
qed

subsection \<open>The task map\<close>

lemma find_snoc:
  "find P (xs @ [x]) = (case find P xs of None \<Rightarrow> (if P x then Some x else None) | Some y \<Rightarrow> Some y)"
  by (induction xs) auto

lemma taskMap_fold:
  "fold (\<lambda>t m. m(task_id t \<mapsto> t)) ts m0 i =
     (case find (\<lambda>t. task_id t = i) (rev ts) of None \<Rightarrow> m0 i | Some t \<Rightarrow> Some t)"
proof (induction ts arbitrary: m0)
  case Nil
  then show ?case by simp
next
  case (Cons t ts)
  have "fold (\<lambda>t m. m(task_id t \<mapsto> t)) (t # ts) m0 i
      = fold (\<lambda>t m. m(task_id t \<mapsto> t)) ts (m0(task_id t \<mapsto> t)) i"
    by (simp del: fun_upd_apply)
  also have "\<dots> = (case find (\<lambda>t. task_id t = i) (rev ts) of
      None \<Rightarrow> (m0(task_id t \<mapsto> t)) i | Some t \<Rightarrow> Some t)"
    by (rule Cons.IH)
  also have "\<dots> = (case find (\<lambda>t. task_id t = i) (rev (t # ts)) of
      None \<Rightarrow> m0 i | Some t \<Rightarrow> Some t)"
    by (auto simp: find_snoc split: option.splits)
  finally show ?case .
qed

lemma taskMap_find_rev: "taskMap tasks i = find (\<lambda>t. task_id t = i) (rev tasks)"
  by (simp add: taskMap_def taskMap_fold split: option.splits)

lemma find_SomeD: "find P xs = Some x \<Longrightarrow> x \<in> set xs \<and> P x"
  by (induction xs) (auto split: if_splits)

lemma taskMap_Some: "taskMap tasks i = Some t \<Longrightarrow> t \<in> set tasks \<and> task_id t = i"
  using find_SomeD[of "\<lambda>t. task_id t = i" "rev tasks" t] by (simp add: taskMap_find_rev)

lemma dom_taskMap: "dom (taskMap tasks) = task_id ` set tasks"
proof -
  have "taskMap tasks i \<noteq> None \<longleftrightarrow> i \<in> task_id ` set tasks" for i
    by (auto simp: taskMap_find_rev find_None_iff)
  then show ?thesis by (auto simp: dom_def)
qed

lemma find_distinct:
  "distinct (map f xs) \<Longrightarrow> x \<in> set xs \<Longrightarrow> find (\<lambda>y. f y = f x) xs = Some x"
  by (induction xs) (auto simp: image_iff)

lemma taskMap_distinct:
  assumes "distinct (map task_id tasks)"
  shows "taskMap tasks i = find (\<lambda>t. task_id t = i) tasks"
proof (cases "i \<in> task_id ` set tasks")
  case True
  then obtain t where t: "t \<in> set tasks" "task_id t = i" by auto
  have "distinct (map task_id (rev tasks))" using assms by (simp add: rev_map[symmetric])
  from find_distinct[OF this, of t] find_distinct[OF assms, of t] t
  show ?thesis by (simp add: taskMap_find_rev)
next
  case False
  then have "find (\<lambda>t. task_id t = i) (rev tasks) = None" "find (\<lambda>t. task_id t = i) tasks = None"
    by (auto simp: find_None_iff)
  then show ?thesis by (simp add: taskMap_find_rev)
qed

lemma tm_rel_distinct:
  assumes "distinct (map task_id tasks)"
  shows "tm_rel (taskMap tasks) = dep_rel tasks"
proof -
  have "(a, b) \<in> tm_rel (taskMap tasks) \<longleftrightarrow> (a, b) \<in> dep_rel tasks" for a b
    unfolding tm_rel_def dep_rel_def depends_def dom_taskMap
    by (cases "find (\<lambda>t. task_id t = a) tasks") (simp_all add: taskMap_distinct[OF assms])
  then show ?thesis by (intro set_eqI) (simp add: split_paired_all)
qed

text \<open>With unique ids, \<open>depends\<close> is: some task with the id declares the dependency.\<close>

lemma depends_unique_ids:
  assumes "distinct (map task_id tasks)"
  shows "depends tasks a b \<longleftrightarrow> (\<exists>t\<in>set tasks. task_id t = a \<and> b \<in> set (dependencies t))"
proof
  assume "depends tasks a b"
  then obtain t where "find (\<lambda>t. task_id t = a) tasks = Some t" "b \<in> set (dependencies t)"
    by (auto simp: depends_def split: option.splits)
  with find_SomeD[of "\<lambda>t. task_id t = a" tasks t] show "\<exists>t\<in>set tasks. task_id t = a \<and> b \<in> set (dependencies t)"
    by auto
next
  assume "\<exists>t\<in>set tasks. task_id t = a \<and> b \<in> set (dependencies t)"
  then obtain t where t: "t \<in> set tasks" "task_id t = a" "b \<in> set (dependencies t)" by auto
  from find_distinct[OF assms t(1)] t(2,3) show "depends tasks a b"
    by (simp add: depends_def)
qed

subsection \<open>The loop over the tasks and the annotated output\<close>

lemma assignAll_returns:
  "finite (dom tm) \<Longrightarrow> card (dom tm) < n \<Longrightarrow> snd st \<inter> dom tm = {} \<Longrightarrow>
     \<exists>phs' vis'. assignAll n tm ts st = Some (phs', vis')"
proof (induction ts arbitrary: st)
  case Nil
  then show ?case by (cases st) simp
next
  case (Cons t ts)
  have "dom tm - snd st = dom tm" using Cons.prems(3) by auto
  with Cons.prems(2) have "card (dom tm - snd st) < n" by simp
  from assignPhase_returns_aux(1)[OF Cons.prems(1) this, of "task_id t"]
  obtain p phs1 vis1 where r: "assignPhase n tm (task_id t) st = Some (p, phs1, vis1)"
    "vis1 \<inter> dom tm = snd st \<inter> dom tm" by blast
  with Cons.IH[OF Cons.prems(1,2), of "(phs1, vis1)"] Cons.prems(3)
  show ?case by auto
qed

lemma assignAll_frame:
  "assignAll n tm ts (phs, vis) = Some (phs', vis') \<Longrightarrow> ap_pre tm phs vis \<Longrightarrow>
     vis \<inter> dom tm = {} \<Longrightarrow>
     ap_frame tm phs vis phs' vis' \<and> (\<forall>t\<in>set ts. task_id t \<in> dom tm \<longrightarrow> phs' (task_id t) \<noteq> None)"
proof (induction ts arbitrary: phs vis)
  case Nil
  then show ?case by (simp add: ap_frame_refl)
next
  case (Cons t ts)
  from Cons.prems(1) obtain p phs1 vis1 where
    r1: "assignPhase n tm (task_id t) (phs, vis) = Some (p, phs1, vis1)"
    and r2: "assignAll n tm ts (phs1, vis1) = Some (phs', vis')"
    by (auto split: bind_splits)
  from assignPhase_frame[OF r1 Cons.prems(2)] Cons.prems(3)
  have f1: "ap_frame tm phs vis phs1 vis1"
    and s1: "task_id t \<in> dom tm \<longrightarrow> phs1 (task_id t) = Some p" by auto
  from f1 Cons.prems(3) have pre1: "ap_pre tm phs1 vis1" and v1: "vis1 \<inter> dom tm = {}"
    by (simp_all add: ap_frame_def)
  from Cons.IH[OF r2 pre1 v1]
  have f2: "ap_frame tm phs1 vis1 phs' vis'"
    and s2: "\<forall>t\<in>set ts. task_id t \<in> dom tm \<longrightarrow> phs' (task_id t) \<noteq> None" by simp_all
  from f2 have "phs1 \<subseteq>\<^sub>m phs'" by (simp add: ap_frame_def)
  with s1 have "task_id t \<in> dom tm \<longrightarrow> phs' (task_id t) \<noteq> None"
    by (auto simp: map_le_def dom_def)
  with ap_frame_trans[OF f1 f2] s2 show ?case by simp
qed

lemma assignAll_mono:
  assumes "acyclic (tm_rel tm)"
  shows "assignAll n tm ts (phs, vis) = Some (phs', vis') \<Longrightarrow> ap_pre tm phs vis \<Longrightarrow>
     vis \<inter> dom tm = {} \<Longrightarrow> mono_ok tm phs \<Longrightarrow> mono_ok tm phs'"
proof (induction ts arbitrary: phs vis)
  case Nil
  then show ?case by simp
next
  case (Cons t ts)
  from Cons.prems(1) obtain p phs1 vis1 where
    r1: "assignPhase n tm (task_id t) (phs, vis) = Some (p, phs1, vis1)"
    and r2: "assignAll n tm ts (phs1, vis1) = Some (phs', vis')"
    by (auto split: bind_splits)
  from assignPhase_frame[OF r1 Cons.prems(2)]
  have f1: "ap_frame tm phs vis phs1 vis1" by simp
  with Cons.prems(3) have pre1: "ap_pre tm phs1 vis1" and v1: "vis1 \<inter> dom tm = {}"
    by (simp_all add: ap_frame_def)
  have "anc tm vis (task_id t)" using Cons.prems(3) by (simp add: anc_def)
  with assignPhase_mono_aux(1)[OF assms r1] Cons.prems(2,4)
  have "mono_ok tm phs1" by simp
  from Cons.IH[OF r2 pre1 v1 this] show ?case .
qed

lemma ap_pre_init: "ap_pre tm Map.empty {}"
  by (simp add: ap_pre_def phases_ok_def)

lemma mono_ok_init: "mono_ok tm Map.empty"
  by (simp add: mono_ok_def)

text \<open>The result of the phase assigner, in terms of the final map \<open>phs\<close>.\<close>

lemma optimizeTaskExecution_result:
  assumes "length tasks < n"
  shows "\<exists>phs. phases_ok (taskMap tasks) phs \<and>
     (acyclic (tm_rel (taskMap tasks)) \<longrightarrow> mono_ok (taskMap tasks) phs) \<and>
     (\<forall>t\<in>set tasks. \<exists>q. phs (task_id t) = Some q \<and> 1 \<le> q) \<and>
     optimizeTaskExecution n tasks =
       Some (map (\<lambda>t. annotate t (the (phs (task_id t)))
          (1 < length (filter (\<lambda>u. phs (task_id u) = phs (task_id t)) tasks))) tasks)"
proof -
  let ?tm = "taskMap tasks"
  have fin: "finite (dom ?tm)" and card: "card (dom ?tm) < n"
    using card_ids[of tasks] assms by (simp_all add: dom_taskMap)
  from assignAll_returns[OF fin card, of "(Map.empty, {})" tasks]
  obtain phs vis where r: "assignAll n ?tm tasks (Map.empty, {}) = Some (phs, vis)" by auto
  from assignAll_frame[OF r ap_pre_init]
  have fr: "ap_frame ?tm Map.empty {} phs vis"
    and tot: "\<forall>t\<in>set tasks. task_id t \<in> dom ?tm \<longrightarrow> phs (task_id t) \<noteq> None" by simp_all
  from fr have ok: "phases_ok ?tm phs" by (simp add: ap_frame_def ap_pre_def)
  have q: "\<exists>q. phs (task_id t) = Some q \<and> 1 \<le> q" if "t \<in> set tasks" for t
  proof -
    from that have "task_id t \<in> dom ?tm" by (simp add: dom_taskMap)
    with tot that obtain q where "phs (task_id t) = Some q" by auto
    with ok show ?thesis unfolding phases_ok_def by fastforce
  qed
  have m: "mono_ok ?tm phs" if "acyclic (tm_rel ?tm)"
    using assignAll_mono[OF that r ap_pre_init _ mono_ok_init] by simp
  have "(let p = (case phs (task_id t) of None \<Rightarrow> 1 | Some q \<Rightarrow> if q = 0 then 1 else q);
             samePhaseTasks = filter (\<lambda>u. phs (task_id u) = Some p) tasks
         in annotate t p (length samePhaseTasks > 1))
       = annotate t (the (phs (task_id t)))
          (1 < length (filter (\<lambda>u. phs (task_id u) = phs (task_id t)) tasks))"
    if "t \<in> set tasks" for t
    using q[OF that] by (auto simp: Let_def)
  then have "optimizeTaskExecution n tasks =
       Some (map (\<lambda>t. annotate t (the (phs (task_id t)))
          (1 < length (filter (\<lambda>u. phs (task_id u) = phs (task_id t)) tasks))) tasks)"
    by (simp add: optimizeTaskExecution_def r cong: map_cong)
  with ok m q show ?thesis by blast
qed


lemma annotate_simps [simp]:
  "task_id (annotate t p b) = task_id t"
  "dependencies (annotate t p b) = dependencies t"
  "estimatedHours (annotate t p b) = estimatedHours t"
  "category (annotate t p b) = category t"
  "phase (annotate t p b) = p"
  "canStartInParallel (annotate t p b) = b"
  by (simp_all add: annotate_def)

lemma filter_gt1:
  assumes "distinct (map f xs)" and "x \<in> set xs" and "P x"
  shows "1 < length (filter P xs) \<longleftrightarrow> (\<exists>y\<in>set xs. f y \<noteq> f x \<and> P y)"
proof -
  from assms(1) have d: "distinct xs" and inj: "inj_on f (set xs)"
    by (simp_all add: distinct_map)
  let ?S = "{y \<in> set xs. P y}"
  have len: "length (filter P xs) = card ?S"
    using d by (metis distinct_card distinct_filter set_filter)
  have x: "x \<in> ?S" using assms(2,3) by simp
  have "1 < card ?S \<longleftrightarrow> (\<exists>y\<in>?S. y \<noteq> x)"
  proof
    assume "1 < card ?S"
    then have "card (?S - {x}) > 0" using x by simp
    then have "?S - {x} \<noteq> {}" by (metis card.empty less_numeral_extra(3))
    then show "\<exists>y\<in>?S. y \<noteq> x" by auto
  next
    assume "\<exists>y\<in>?S. y \<noteq> x"
    then obtain y where y: "y \<in> ?S" "y \<noteq> x" by auto
    then have "{x, y} \<subseteq> ?S" using x by auto
    then have "card {x, y} \<le> card ?S" by (intro card_mono) auto
    with y show "1 < card ?S" by simp
  qed
  also have "\<dots> \<longleftrightarrow> (\<exists>y\<in>set xs. f y \<noteq> f x \<and> P y)"
    using inj assms(2) by (auto dest: inj_onD)
  finally show ?thesis using len by simp
qed

lemma taskMap_self:
  "distinct (map task_id tasks) \<Longrightarrow> t \<in> set tasks \<Longrightarrow> taskMap tasks (task_id t) = Some t"
  by (simp add: taskMap_distinct find_distinct)

subsection \<open>Phases respect the dependencies\<close>

text \<open>
  Claim C3. For a task list with unique ids whose resolvable dependency edges form a DAG,
  the phase assigner returns the tasks in order, each with a phase of at least 1; the
  phase of a task is greater than the phase of every task it depends on, and a task with
  no dependency has phase 1.
\<close>

theorem optimizeTaskExecution_phases:
  assumes "distinct (map task_id tasks)" and "acyclic (dep_rel tasks)" and "length tasks < n"
  shows "\<exists>out. optimizeTaskExecution n tasks = Some out \<and>
     map task_id out = map task_id tasks \<and> map dependencies out = map dependencies tasks \<and>
     (\<forall>t\<in>set out. 1 \<le> phase t) \<and>
     (\<forall>t\<in>set out. \<forall>d\<in>set out. task_id d \<in> set (dependencies t) \<longrightarrow> phase d < phase t) \<and>
     (\<forall>t\<in>set out. dependencies t = [] \<longrightarrow> phase t = 1)"
proof -
  let ?tm = "taskMap tasks"
  from optimizeTaskExecution_result[OF assms(3)] assms(2) tm_rel_distinct[OF assms(1)]
  obtain phs where ok: "phases_ok ?tm phs" and mono: "mono_ok ?tm phs"
    and tot: "\<forall>t\<in>set tasks. \<exists>q. phs (task_id t) = Some q \<and> 1 \<le> q"
    and out: "optimizeTaskExecution n tasks =
       Some (map (\<lambda>t. annotate t (the (phs (task_id t)))
          (1 < length (filter (\<lambda>u. phs (task_id u) = phs (task_id t)) tasks))) tasks)"
    by auto
  let ?out = "map (\<lambda>t. annotate t (the (phs (task_id t)))
          (1 < length (filter (\<lambda>u. phs (task_id u) = phs (task_id t)) tasks))) tasks"
  have ids: "map task_id ?out = map task_id tasks" "map dependencies ?out = map dependencies tasks"
    by simp_all
  have ge: "\<forall>t\<in>set ?out. 1 \<le> phase t" using tot by fastforce
  have lt: "\<forall>t\<in>set ?out. \<forall>d\<in>set ?out. task_id d \<in> set (dependencies t) \<longrightarrow> phase d < phase t"
  proof (intro ballI impI)
    fix t' d' assume "t' \<in> set ?out" "d' \<in> set ?out" and dep: "task_id d' \<in> set (dependencies t')"
    then obtain t d where t: "t \<in> set tasks" "phase t' = the (phs (task_id t))"
      "dependencies t' = dependencies t"
      and d: "d \<in> set tasks" "phase d' = the (phs (task_id d))" "task_id d' = task_id d"
      by auto
    from tot t(1) obtain p where p: "phs (task_id t) = Some p" by blast
    have "task_id d \<in> dom ?tm" using d(1) by (simp add: dom_taskMap)
    with mono p taskMap_self[OF assms(1) t(1)] dep t(3) d(3)
    obtain q where "phs (task_id d) = Some q" "q < p" unfolding mono_ok_def by metis
    with p t(2) d(2) show "phase d' < phase t'" by simp
  qed
  have one: "\<forall>t\<in>set ?out. dependencies t = [] \<longrightarrow> phase t = 1"
  proof (intro ballI impI)
    fix t' assume "t' \<in> set ?out" and e: "dependencies t' = []"
    then obtain t where t: "t \<in> set tasks" "phase t' = the (phs (task_id t))"
      "dependencies t' = dependencies t" by auto
    from tot t(1) obtain p where p: "phs (task_id t) = Some p" by blast
    with ok taskMap_self[OF assms(1) t(1)] e t(3) have "p = 1"
      unfolding phases_ok_def by fastforce
    with p t(2) show "phase t' = 1" by simp
  qed
  from out ids ge lt one show ?thesis by blast
qed

subsection \<open>The parallel flag\<close>

text \<open>
  Claim C8. For a task list with unique ids, cyclic or not, an annotated task has
  \<^verbatim>\<open>canStartInParallel\<close> exactly when another task of the output has the same phase.
\<close>

theorem canStartInParallel_iff:
  assumes "distinct (map task_id tasks)" and "length tasks < n"
  shows "\<exists>out. optimizeTaskExecution n tasks = Some out \<and>
     map task_id out = map task_id tasks \<and>
     (\<forall>t\<in>set out. canStartInParallel t \<longleftrightarrow>
        (\<exists>u\<in>set out. task_id u \<noteq> task_id t \<and> phase u = phase t))"
proof -
  from optimizeTaskExecution_result[OF assms(2)]
  obtain phs where tot: "\<forall>t\<in>set tasks. \<exists>q. phs (task_id t) = Some q \<and> 1 \<le> q"
    and out: "optimizeTaskExecution n tasks =
       Some (map (\<lambda>t. annotate t (the (phs (task_id t)))
          (1 < length (filter (\<lambda>u. phs (task_id u) = phs (task_id t)) tasks))) tasks)"
    by auto
  let ?out = "map (\<lambda>t. annotate t (the (phs (task_id t)))
          (1 < length (filter (\<lambda>u. phs (task_id u) = phs (task_id t)) tasks))) tasks"
  have "\<forall>t\<in>set ?out. canStartInParallel t \<longleftrightarrow>
        (\<exists>u\<in>set ?out. task_id u \<noteq> task_id t \<and> phase u = phase t)"
  proof
    fix t' assume "t' \<in> set ?out"
    then obtain t where t: "t \<in> set tasks" and t': "t' = annotate t (the (phs (task_id t)))
          (1 < length (filter (\<lambda>u. phs (task_id u) = phs (task_id t)) tasks))" by auto
    have same: "the (phs (task_id u)) = the (phs (task_id t)) \<longleftrightarrow> phs (task_id u) = phs (task_id t)"
      if "u \<in> set tasks" for u
    proof -
      from tot that obtain a where "phs (task_id u) = Some a" by blast
      moreover from tot t obtain b where "phs (task_id t) = Some b" by blast
      ultimately show ?thesis by simp
    qed
    have "canStartInParallel t' \<longleftrightarrow>
        (\<exists>u\<in>set tasks. task_id u \<noteq> task_id t \<and> phs (task_id u) = phs (task_id t))"
      unfolding t' using filter_gt1[OF assms(1) t, of "\<lambda>u. phs (task_id u) = phs (task_id t)"]
      by simp
    also have "\<dots> \<longleftrightarrow> (\<exists>u\<in>set ?out. task_id u \<noteq> task_id t' \<and> phase u = phase t')"
      unfolding t' using same by auto
    finally show "canStartInParallel t' \<longleftrightarrow>
        (\<exists>u\<in>set ?out. task_id u \<noteq> task_id t' \<and> phase u = phase t')" .
  qed
  with out show ?thesis by simp
qed

subsection \<open>Tasks that depend only on missing ids\<close>

text \<open>
  Claim C9, amended. For a task list with unique ids, a task whose dependency list is
  not empty and names only ids that no task has receives phase 2. (With a repeated id
  the phase is the one of the last task carrying the id, as the example after the witness
  shows.)
\<close>

theorem dangling_dependencies_phase_2:
  assumes "distinct (map task_id tasks)" and "length tasks < n"
  shows "\<exists>out. optimizeTaskExecution n tasks = Some out \<and> length out = length tasks \<and>
     (\<forall>i<length tasks.
        dependencies (tasks ! i) \<noteq> [] \<and>
        set (dependencies (tasks ! i)) \<inter> task_id ` set tasks = {} \<longrightarrow>
        phase (out ! i) = 2)"
proof -
  let ?tm = "taskMap tasks"
  from optimizeTaskExecution_result[OF assms(2)]
  obtain phs where ok: "phases_ok ?tm phs"
    and tot: "\<forall>t\<in>set tasks. \<exists>q. phs (task_id t) = Some q \<and> 1 \<le> q"
    and out: "optimizeTaskExecution n tasks =
       Some (map (\<lambda>t. annotate t (the (phs (task_id t)))
          (1 < length (filter (\<lambda>u. phs (task_id u) = phs (task_id t)) tasks))) tasks)"
    by auto
  have "phase (annotate (tasks ! i) (the (phs (task_id (tasks ! i))))
          (1 < length (filter (\<lambda>u. phs (task_id u) = phs (task_id (tasks ! i))) tasks))) = 2"
    if i: "i < length tasks" and d: "dependencies (tasks ! i) \<noteq> []"
      "set (dependencies (tasks ! i)) \<inter> task_id ` set tasks = {}" for i
  proof -
    from i have t: "tasks ! i \<in> set tasks" by simp
    from tot t obtain p where p: "phs (task_id (tasks ! i)) = Some p" by blast
    with ok taskMap_self[OF assms(1) t] d have "p = 2"
      unfolding phases_ok_def dom_taskMap by fastforce
    with p show ?thesis by simp
  qed
  with out show ?thesis by simp
qed

lemma scenario_abc_distinct: "distinct (map task_id scenario_abc)"
  by (simp add: scenario_abc_def mkTask_def)

theorem optimizeTaskExecution_phases_witness:
  "distinct (map task_id scenario_abc) \<and> acyclic (dep_rel scenario_abc) \<and>
   length scenario_abc < 4 \<and>
   (\<exists>out. optimizeTaskExecution 4 scenario_abc = Some out \<and> map phase out = [1, 2, 2])"
proof -
  have len: "length scenario_abc < 4" by (simp add: scenario_abc_def)
  have e: "map_option (map phase) (optimizeTaskExecution 4 scenario_abc) = Some [1, 2, 2]"
    by code_simp
  from optimizeTaskExecution_phases[OF scenario_abc_distinct scenario_abc_acyclic len]
  obtain out where "optimizeTaskExecution 4 scenario_abc = Some out" by blast
  with e scenario_abc_distinct scenario_abc_acyclic len show ?thesis by simp
qed

theorem canStartInParallel_iff_witness:
  "distinct (map task_id scenario_abc) \<and> length scenario_abc < 4 \<and>
   (\<exists>out. optimizeTaskExecution 4 scenario_abc = Some out \<and>
      map canStartInParallel out = [False, True, True])"
proof -
  have len: "length scenario_abc < 4" by (simp add: scenario_abc_def)
  have e: "map_option (map canStartInParallel) (optimizeTaskExecution 4 scenario_abc)
      = Some [False, True, True]"
    by code_simp
  from canStartInParallel_iff[OF scenario_abc_distinct len]
  obtain out where "optimizeTaskExecution 4 scenario_abc = Some out" by blast
  with e scenario_abc_distinct len show ?thesis by simp
qed

theorem dangling_dependencies_phase_2_witness:
  "distinct (map task_id scenario_ghost) \<and> length scenario_ghost < 2 \<and>
   dependencies (scenario_ghost ! 0) \<noteq> [] \<and>
   set (dependencies (scenario_ghost ! 0)) \<inter> task_id ` set scenario_ghost = {} \<and>
   (\<exists>out. optimizeTaskExecution 2 scenario_ghost = Some out \<and> phase (out ! 0) = 2)"
proof -
  have d: "distinct (map task_id scenario_ghost)" and len: "length scenario_ghost < 2"
    and h: "dependencies (scenario_ghost ! 0) \<noteq> []"
      "set (dependencies (scenario_ghost ! 0)) \<inter> task_id ` set scenario_ghost = {}"
    by (simp_all add: scenario_ghost_def mkTask_def)
  from dangling_dependencies_phase_2[OF d len] h
  have "\<exists>out. optimizeTaskExecution 2 scenario_ghost = Some out \<and> phase (out ! 0) = 2"
    by (auto simp: scenario_ghost_def)
  with d len h show ?thesis by simp
qed

text \<open>
  Claim C9 as stated fails when an id is repeated: in \<open>duplicate_ids\<close> the first task
  depends only on a missing id and receives phase 1, the phase of the second task, which
  has the same id and no dependency, for every fuel from 3 on.
\<close>

theorem dangling_dependencies_duplicate_ids:
  "dependencies (duplicate_ids ! 0) \<noteq> [] \<and>
   set (dependencies (duplicate_ids ! 0)) \<inter> task_id ` set duplicate_ids = {} \<and>
   (\<forall>n. map_option (map phase) (optimizeTaskExecution (n + 3) duplicate_ids) = Some [1, 1])"
proof -
  have "map_option (map phase) (optimizeTaskExecution 3 duplicate_ids) = Some [1, 1]"
    by code_simp
  then obtain out where o: "optimizeTaskExecution 3 duplicate_ids = Some out"
    "map phase out = [1, 1]"
    by auto
  have "map_option (map phase) (optimizeTaskExecution (n + 3) duplicate_ids) = Some [1, 1]" for n
    using optimizeTaskExecution_fuel_mono[OF o(1), of "n + 3"] o(2) by simp
  then show ?thesis by (simp add: duplicate_ids_def mkTask_def)
qed

section \<open>The critical-path calculator\<close>

subsection \<open>More fuel does not change a result\<close>

lemma calculateTaskDuration_fuel_mono:
  "calculateTaskDuration n tm x vis = Some r \<Longrightarrow> n \<le> m \<Longrightarrow> calculateTaskDuration m tm x vis = Some r"
  "depDurations n tm ds vis = Some rs \<Longrightarrow> n \<le> m \<Longrightarrow> depDurations m tm ds vis = Some rs"
proof (induction n tm x vis and n tm ds vis arbitrary: m r and m rs
    rule: calculateTaskDuration_depDurations.induct)
  case (1 tm taskId vis)
  then show ?case by simp
next
  case (2 n tm taskId vis)
  from "2.prems"(2) obtain m' where m: "m = Suc m'" "n \<le> m'" by (cases m) auto
  show ?case
  proof (cases "taskId \<in> vis")
    case True
    with "2.prems"(1) show ?thesis by (simp add: m)
  next
    case False
    show ?thesis
    proof (cases "tm taskId")
      case None
      with False "2.prems"(1) show ?thesis by (simp add: m)
    next
      case (Some task)
      with False "2.prems"(1) obtain ds vis2 where
        r: "depDurations n tm (dependencies task) (insert taskId vis) = Some (ds, vis2)"
        and eq: "r = (mathMax0 ds + estimatedHours task, vis2)"
        by (auto simp: Let_def split: bind_splits)
      from "2.IH"[OF False refl Some r m(2)] False Some eq show ?thesis
        by (simp add: m)
    qed
  qed
next
  case (3 n tm vis)
  then show ?case by simp
next
  case (4 n tm dep deps vis)
  from "4.prems"(1) obtain d vis1 ds vis2 where
    r1: "calculateTaskDuration n tm dep vis = Some (d, vis1)"
    and r2: "depDurations n tm deps vis1 = Some (ds, vis2)" and eq: "rs = (d # ds, vis2)"
    by (auto split: bind_splits)
  from "4.IH"(1)[OF r1 "4.prems"(2)] "4.IH"(2)[OF r1 refl r2 "4.prems"(2)] eq
  show ?case by simp
qed

subsection \<open>\<^verbatim>\<open>calculateTaskDuration\<close> returns on every input\<close>

lemma calculateTaskDuration_returns:
  "finite (dom tm) \<Longrightarrow> card (dom tm - vis) < n \<Longrightarrow>
     \<exists>d vis'. calculateTaskDuration n tm x vis = Some (d, vis') \<and> vis \<subseteq> vis'"
  "finite (dom tm) \<Longrightarrow> card (dom tm - vis) < n \<Longrightarrow>
     \<exists>ds vis'. depDurations n tm xs vis = Some (ds, vis') \<and> vis \<subseteq> vis'"
proof (induction n tm x vis and n tm xs vis rule: calculateTaskDuration_depDurations.induct)
  case (1 tm taskId vis)
  then show ?case by simp
next
  case (2 n tm taskId vis)
  show ?case
  proof (cases "taskId \<in> vis")
    case True
    then show ?thesis by simp
  next
    case False
    show ?thesis
    proof (cases "tm taskId")
      case None
      with False show ?thesis by auto
    next
      case (Some task)
      with False have "card (dom tm - insert taskId vis) < card (dom tm - vis)"
        using "2.prems"(1) by (intro psubset_card_mono) auto
      with "2.prems"(2) have "card (dom tm - insert taskId vis) < n" by simp
      from "2.IH"[OF False refl Some "2.prems"(1) this] False Some
      show ?thesis by (auto simp: Let_def)
    qed
  qed
next
  case (3 n tm vis)
  then show ?case by simp
next
  case (4 n tm dep deps vis)
  from "4.IH"(1)[OF "4.prems"] obtain d vis1 where
    r1: "calculateTaskDuration n tm dep vis = Some (d, vis1)" "vis \<subseteq> vis1" by blast
  have "card (dom tm - vis1) \<le> card (dom tm - vis)"
    using r1(2) "4.prems"(1) by (intro card_mono) auto
  with "4.prems"(2) have "card (dom tm - vis1) < n" by simp
  from "4.IH"(2)[OF r1(1) refl "4.prems"(1) this] r1 show ?case by auto
qed

lemma mathMax0_zero: "\<forall>d\<in>set ds. d = 0 \<Longrightarrow> mathMax0 ds = 0"
proof -
  have "\<forall>d\<in>set ds. d = 0 \<Longrightarrow> fold max ds (0::rat) = 0"
    by (induction ds) auto
  then show "\<forall>d\<in>set ds. d = 0 \<Longrightarrow> mathMax0 ds = 0" by (simp add: mathMax0_def)
qed

lemma calculateTaskDuration_zero:
  assumes z: "\<And>i t. tm i = Some t \<Longrightarrow> estimatedHours t = 0"
  shows "calculateTaskDuration n tm x vis = Some (d, vis') \<Longrightarrow> d = 0"
    and "depDurations n tm xs vis = Some (ds, vis') \<Longrightarrow> \<forall>d\<in>set ds. d = 0"
  using z
proof (induction n tm x vis and n tm xs vis arbitrary: d vis' and ds vis'
    rule: calculateTaskDuration_depDurations.induct)
  case (1 tm taskId vis)
  then show ?case by simp
next
  case (2 n tm taskId vis)
  show ?case
  proof (cases "taskId \<in> vis")
    case True
    with "2.prems"(1) show ?thesis by simp
  next
    case False
    show ?thesis
    proof (cases "tm taskId")
      case None
      with False "2.prems"(1) show ?thesis by simp
    next
      case (Some task)
      with False "2.prems"(1) obtain ds vis2 where
        r: "depDurations n tm (dependencies task) (insert taskId vis) = Some (ds, vis2)"
        and eq: "d = mathMax0 ds + estimatedHours task"
        by (auto simp: Let_def split: bind_splits)
      from "2.IH"[OF False refl Some r "2.prems"(2)] have "\<forall>d\<in>set ds. d = 0" by simp
      with eq "2.prems"(2)[OF Some] show ?thesis by (simp add: mathMax0_zero)
    qed
  qed
next
  case (3 n tm vis)
  then show ?case by simp
next
  case (4 n tm dep deps vis)
  from "4.prems"(1) obtain d1 vis1 ds1 where
    r1: "calculateTaskDuration n tm dep vis = Some (d1, vis1)"
    and r2: "depDurations n tm deps vis1 = Some (ds1, vis')" and eq: "ds = d1 # ds1"
    by (auto split: bind_splits)
  from "4.IH"(1)[OF r1 "4.prems"(2)] "4.IH"(2)[OF r1 refl r2 "4.prems"(2)] eq
  show ?case by simp
qed

lemma pickLongest_zero:
  assumes fin: "finite (dom tm)" and fuel: "card (dom tm) < n"
    and z: "\<And>i t. tm i = Some t \<Longrightarrow> estimatedHours t = 0"
  shows "pickLongest n tm ids 0 [] = Some (0, [])"
proof (induction ids)
  case Nil
  then show ?case by simp
next
  case (Cons i ids)
  from fuel have "card (dom tm - {}) < n" by simp
  from calculateTaskDuration_returns(1)[OF fin this, of i] obtain d vis' where
    r: "calculateTaskDuration n tm i {} = Some (d, vis')" by blast
  from calculateTaskDuration_zero(1)[OF z r] have "d = 0" by simp
  with r Cons.IH show ?case by simp
qed

lemma finite_dom_taskMap: "finite (dom (taskMap tasks))"
  by (simp add: dom_taskMap)

subsection \<open>Tasks of zero hours\<close>

text \<open>
  Claim C10. When every task has \<^verbatim>\<open>estimatedHours\<close> 0, the critical path is the empty
  list, whether or not the task list is empty: every duration is 0, no duration is
  strictly greater than the initial maximum 0, and \<^verbatim>\<open>criticalTaskId\<close> stays empty.
\<close>

theorem calculateCriticalPath_zero_hours:
  assumes "\<forall>t\<in>set tasks. estimatedHours t = 0" and "length tasks < n"
  shows "calculateCriticalPath n tasks = Some []"
proof -
  have fuel: "card (dom (taskMap tasks)) < n"
    using card_ids[of tasks] assms(2) by (simp add: dom_taskMap)
  have z: "estimatedHours t = 0" if "taskMap tasks i = Some t" for i t
    using taskMap_Some[OF that] assms(1) by simp
  from pickLongest_zero[OF finite_dom_taskMap fuel z, where ids = "map task_id tasks"]
  show ?thesis by (simp add: calculateCriticalPath_def)
qed

theorem calculateCriticalPath_zero_hours_witness:
  "zero_hours \<noteq> [] \<and> list_all (\<lambda>t. estimatedHours t = 0) zero_hours \<and> length zero_hours < 3 \<and>
   calculateCriticalPath 3 zero_hours = Some []"
proof -
  have z: "\<forall>t\<in>set zero_hours. estimatedHours t = 0" and len: "length zero_hours < 3"
    by (simp_all add: zero_hours_def mkTask_def)
  from calculateCriticalPath_zero_hours[OF z len] z len show ?thesis
    by (simp add: list_all_iff) (simp add: zero_hours_def)
qed

subsection \<open>The result is not always a longest path\<close>

lemma pickLongest_fuel_mono:
  "pickLongest n tm ids mx c = Some r \<Longrightarrow> n \<le> m \<Longrightarrow> pickLongest m tm ids mx c = Some r"
proof (induction ids arbitrary: mx c)
  case Nil
  then show ?case by simp
next
  case (Cons i ids)
  from Cons.prems(1) obtain d vis' where
    r1: "calculateTaskDuration n tm i {} = Some (d, vis')"
    by (auto split: bind_splits)
  from calculateTaskDuration_fuel_mono(1)[OF r1 Cons.prems(2)]
  have r1': "calculateTaskDuration m tm i {} = Some (d, vis')" .
  from Cons.prems(1) r1 Cons.IH[OF _ Cons.prems(2)] r1' show ?case
    by (auto split: if_splits)
qed

lemma buildPath_fuel_mono:
  "buildPath n tm x cp = Some r \<Longrightarrow> n \<le> m \<Longrightarrow> buildPath m tm x cp = Some r"
proof (induction n arbitrary: m x cp)
  case 0
  then show ?case by simp
next
  case (Suc n)
  from Suc.prems(2) obtain m' where m: "m = Suc m'" "n \<le> m'" by (cases m) auto
  show ?case
  proof (cases "tm x")
    case None
    with Suc.prems(1) show ?thesis by (simp add: m)
  next
    case (Some task)
    show ?thesis
    proof (cases "dependencies task = []")
      case True
      with Some Suc.prems(1) show ?thesis by (simp add: m)
    next
      case False
      with Some Suc.prems(1) obtain mx c where
        p: "pickLongest n tm (dependencies task) 0 [] = Some (mx, c)"
        by (auto simp: Let_def split: bind_splits)
      from pickLongest_fuel_mono[OF p m(2)]
      have p': "pickLongest m' tm (dependencies task) 0 [] = Some (mx, c)" .
      show ?thesis
      proof (cases "c = []")
        case True
        with Some False p p' Suc.prems(1) show ?thesis by (simp add: m Let_def)
      next
        case c: False
        with Some False p Suc.prems(1) have "buildPath n tm c (x # cp) = Some r"
          by (simp add: Let_def)
        from Suc.IH[OF this m(2)] Some False p' c show ?thesis by (simp add: m Let_def)
      qed
    qed
  qed
qed

lemma calculateCriticalPath_fuel_mono:
  assumes "calculateCriticalPath n tasks = Some r" and "n \<le> m"
  shows "calculateCriticalPath m tasks = Some r"
proof -
  from assms(1) obtain mx c where
    p: "pickLongest n (taskMap tasks) (map task_id tasks) 0 [] = Some (mx, c)"
    by (auto simp: calculateCriticalPath_def split: bind_splits)
  from pickLongest_fuel_mono[OF p assms(2)]
  have p': "pickLongest m (taskMap tasks) (map task_id tasks) 0 [] = Some (mx, c)" .
  show ?thesis
  proof (cases "c = []")
    case True
    with p p' assms(1) show ?thesis by (simp add: calculateCriticalPath_def)
  next
    case False
    with p assms(1) have "buildPath n (taskMap tasks) c [] = Some r"
      by (simp add: calculateCriticalPath_def)
    from buildPath_fuel_mono[OF this assms(2)] p' False show ?thesis
      by (simp add: calculateCriticalPath_def)
  qed
qed

lemma critical_diamond_acyclic: "acyclic (dep_rel critical_diamond)"
proof (rule acyclic_by_rank)
  fix a b assume "(a, b) \<in> dep_rel critical_diamond"
  then show "(if b = ''A'' then 0 else if b = ''B'' then 1 else 2)
      < (if a = ''A'' then 0 else if a = ''B'' then 1 else (2::nat))"
    by (auto simp: dep_rel_def depends_def critical_diamond_def mkTask_def split: if_splits)
qed

text \<open>
  Claim C1 fails on the code. \<^verbatim>\<open>calculateTaskDuration\<close> returns 0 for an id it has
  already visited in the same top-level computation, instead of the duration it computed
  for it. In \<open>critical_diamond\<close> the duration of D is computed as 11 (A contributes 10
  directly, and 0 again below B), so the loop keeps B, whose duration is 11 as well, and
  the result is the path A, B of 11 hours, for every fuel from 4 on. The dependency path
  A, B, D has 12 hours.
\<close>

theorem calculateCriticalPath_not_longest:
  "distinct (map task_id critical_diamond) \<and> acyclic (dep_rel critical_diamond) \<and>
   (\<forall>n. calculateCriticalPath (n + 4) critical_diamond = Some [''A'', ''B'']) \<and>
   pathHours critical_diamond [''A'', ''B''] = 11 \<and>
   dependency_path critical_diamond [''A'', ''B'', ''D''] \<and>
   pathHours critical_diamond [''A'', ''B'', ''D''] = 12"
proof -
  have "calculateCriticalPath 4 critical_diamond = Some [''A'', ''B'']" by code_simp
  then have "\<forall>n. calculateCriticalPath (n + 4) critical_diamond = Some [''A'', ''B'']"
    by (auto intro: calculateCriticalPath_fuel_mono)
  moreover have "distinct (map task_id critical_diamond)"
    by (simp add: critical_diamond_def mkTask_def)
  moreover have "pathHours critical_diamond [''A'', ''B''] = 11"
    "pathHours critical_diamond [''A'', ''B'', ''D''] = 12"
    by (simp_all add: pathHours_def hoursOf_def critical_diamond_def mkTask_def)
  moreover have "dependency_path critical_diamond [''A'', ''B'', ''D'']"
    by (simp add: dependency_path_def depends_def critical_diamond_def mkTask_def)
  ultimately show ?thesis using critical_diamond_acyclic by simp
qed

subsection \<open>\<^verbatim>\<open>buildPath\<close> does not return on a cycle\<close>

lemma pickLongest_unique:
  assumes "pickLongest k tm ids mx c = Some r" and "pickLongest n tm ids mx c = Some r'"
  shows "r' = r"
proof -
  from pickLongest_fuel_mono[OF assms(1), of "max k n"] pickLongest_fuel_mono[OF assms(2), of "max k n"]
  show ?thesis by simp
qed

lemma taskMap_xy:
  "taskMap scenario_xy ''X'' = Some (mkTask ''X'' 1 [''Y''])"
  "taskMap scenario_xy ''Y'' = Some (mkTask ''Y'' 1 [''X''])"
  by (simp_all add: taskMap_def scenario_xy_def mkTask_def)

lemma pickLongest_xy:
  "pickLongest n (taskMap scenario_xy) [''Y''] 0 [] = Some r \<Longrightarrow> r = (2, ''Y'')"
  "pickLongest n (taskMap scenario_xy) [''X''] 0 [] = Some r \<Longrightarrow> r = (2, ''X'')"
  "pickLongest n (taskMap scenario_xy) (map task_id scenario_xy) 0 [] = Some r \<Longrightarrow> r = (2, ''X'')"
proof -
  have "pickLongest 3 (taskMap scenario_xy) [''Y''] 0 [] = Some (2, ''Y'')" by code_simp
  from pickLongest_unique[OF this]
  show "pickLongest n (taskMap scenario_xy) [''Y''] 0 [] = Some r \<Longrightarrow> r = (2, ''Y'')" .
  have "pickLongest 3 (taskMap scenario_xy) [''X''] 0 [] = Some (2, ''X'')" by code_simp
  from pickLongest_unique[OF this]
  show "pickLongest n (taskMap scenario_xy) [''X''] 0 [] = Some r \<Longrightarrow> r = (2, ''X'')" .
  have "pickLongest 3 (taskMap scenario_xy) (map task_id scenario_xy) 0 [] = Some (2, ''X'')"
    by code_simp
  from pickLongest_unique[OF this]
  show "pickLongest n (taskMap scenario_xy) (map task_id scenario_xy) 0 [] = Some r \<Longrightarrow> r = (2, ''X'')" .
qed

lemma buildPath_xy:
  "buildPath n (taskMap scenario_xy) ''X'' cp = None \<and>
   buildPath n (taskMap scenario_xy) ''Y'' cp = None"
proof (induction n arbitrary: cp)
  case 0
  then show ?case by simp
next
  case (Suc n)
  have "buildPath (Suc n) (taskMap scenario_xy) ''X'' cp = None"
  proof (cases "pickLongest n (taskMap scenario_xy) [''Y''] 0 []")
    case None
    then show ?thesis by (simp add: taskMap_xy mkTask_def)
  next
    case (Some r)
    with pickLongest_xy(1)[OF Some] Suc.IH show ?thesis
      by (simp add: taskMap_xy mkTask_def)
  qed
  moreover have "buildPath (Suc n) (taskMap scenario_xy) ''Y'' cp = None"
  proof (cases "pickLongest n (taskMap scenario_xy) [''X''] 0 []")
    case None
    then show ?thesis by (simp add: taskMap_xy mkTask_def)
  next
    case (Some r)
    with pickLongest_xy(2)[OF Some] Suc.IH show ?thesis
      by (simp add: taskMap_xy mkTask_def)
  qed
  ultimately show ?case by simp
qed

text \<open>
  Claim C5 fails on the code. \<^verbatim>\<open>buildPath\<close> has no guard against a cycle: on
  \<open>scenario_xy\<close> it steps from X to Y and back for ever, so
  \<^verbatim>\<open>calculateCriticalPath\<close> and \<^verbatim>\<open>execute\<close> return for no fuel (in JavaScript the call
  stack overflows and a RangeError is raised), although the cycle detector has found
  the cycle.
\<close>

theorem execute_never_returns_on_cycle:
  "(\<forall>n. calculateCriticalPath n scenario_xy = None) \<and>
   (\<forall>n cs. execute n scenario_xy cs = None) \<and>
   findCircularDependencies 3 scenario_xy = Some [[''X'', ''Y'', ''X'']]"
proof -
  have cp: "calculateCriticalPath n scenario_xy = None" for n
  proof (cases "pickLongest n (taskMap scenario_xy) (map task_id scenario_xy) 0 []")
    case None
    then show ?thesis by (simp add: calculateCriticalPath_def)
  next
    case (Some r)
    with pickLongest_xy(3)[OF Some] buildPath_xy show ?thesis
      by (simp add: calculateCriticalPath_def)
  qed
  have "execute n scenario_xy cs = None" for n cs
    by (simp add: execute_def cp split: bind_splits)
  moreover have "findCircularDependencies 3 scenario_xy = Some [[''X'', ''Y'', ''X'']]"
    by code_simp
  ultimately show ?thesis using cp by simp
qed

subsection \<open>\<^verbatim>\<open>calculateCriticalPath\<close> returns on acyclic input\<close>






section \<open>The plan builder\<close>

subsection \<open>Grouping by phase\<close>

lemma phaseMapPush_keys:
  "map fst (phaseMapPush m k t) = (if k \<in> fst ` set m then map fst m else map fst m @ [k])"
  by (induction m k t rule: phaseMapPush.induct) auto

lemma phaseMapPush_map_of:
  "map_of (phaseMapPush m k t) k' =
     (if k' = k then Some ((case map_of m k of None \<Rightarrow> [] | Some g \<Rightarrow> g) @ [t]) else map_of m k')"
  by (induction m k t rule: phaseMapPush.induct) auto

lemma fold_push:
  assumes "distinct (map fst m)"
  shows "distinct (map fst (fold (\<lambda>t m. phaseMapPush m (phase t) t) ts m)) \<and>
     set (map fst (fold (\<lambda>t m. phaseMapPush m (phase t) t) ts m)) = fst ` set m \<union> phase ` set ts \<and>
     (\<forall>k. map_of (fold (\<lambda>t m. phaseMapPush m (phase t) t) ts m) k =
        (if k \<in> fst ` set m \<union> phase ` set ts
         then Some ((case map_of m k of None \<Rightarrow> [] | Some g \<Rightarrow> g) @ filter (\<lambda>t. phase t = k) ts)
         else None))"
  using assms
proof (induction ts arbitrary: m)
  case Nil
  then show ?case
    by (auto simp: map_of_eq_None_iff[symmetric] simp del: map_of_eq_None_iff split: option.splits)
next
  case (Cons t ts)
  let ?m1 = "phaseMapPush m (phase t) t"
  have d1: "distinct (map fst ?m1)" using Cons.prems by (simp add: phaseMapPush_keys)
  have k1: "fst ` set ?m1 = insert (phase t) (fst ` set m)"
    unfolding set_map[symmetric] phaseMapPush_keys by auto
  from Cons.IH[OF d1] have
    A: "distinct (map fst (fold (\<lambda>t m. phaseMapPush m (phase t) t) ts ?m1))"
    and B: "set (map fst (fold (\<lambda>t m. phaseMapPush m (phase t) t) ts ?m1)) = fst ` set ?m1 \<union> phase ` set ts"
    and C: "\<And>k. map_of (fold (\<lambda>t m. phaseMapPush m (phase t) t) ts ?m1) k =
        (if k \<in> fst ` set ?m1 \<union> phase ` set ts
         then Some ((case map_of ?m1 k of None \<Rightarrow> [] | Some g \<Rightarrow> g) @ filter (\<lambda>t. phase t = k) ts)
         else None)"
    by blast+
  have none: "map_of m k = None" if "k \<notin> fst ` set m" for k
    using that by (simp add: map_of_eq_None_iff)
  have "map_of (fold (\<lambda>t m. phaseMapPush m (phase t) t) (t # ts) m) k =
        (if k \<in> fst ` set m \<union> phase ` set (t # ts)
         then Some ((case map_of m k of None \<Rightarrow> [] | Some g \<Rightarrow> g) @ filter (\<lambda>t. phase t = k) (t # ts))
         else None)" for k
    using C[of k] none[of k] by (auto simp: k1 phaseMapPush_map_of)
  with A B show ?case by (simp add: k1)
qed

lemma groupByPhase_keys:
  "distinct (map fst (groupByPhase opt))" "set (map fst (groupByPhase opt)) = phase ` set opt"
  using fold_push[of "[]" opt] by (simp_all add: groupByPhase_def)

lemma groupByPhase_entry:
  assumes "(k, g) \<in> set (groupByPhase opt)"
  shows "g = filter (\<lambda>t. phase t = k) opt" and "g \<noteq> []"
proof -
  from assms have "map_of (groupByPhase opt) k = Some g"
    using groupByPhase_keys(1)[of opt] by simp
  moreover from assms have k: "k \<in> phase ` set opt"
    using groupByPhase_keys(2)[of opt] by force
  ultimately show g: "g = filter (\<lambda>t. phase t = k) opt"
    using fold_push[of "[]" opt] by (simp add: groupByPhase_def)
  from k show "g \<noteq> []" unfolding g by (auto simp: filter_empty_conv)
qed

lemma groupByPhase_nonempty: "\<forall>(k, g)\<in>set (groupByPhase opt). g \<noteq> []"
  using groupByPhase_entry(2) by auto





subsection \<open>Hours of a phase and days of the plan\<close>



section \<open>The validation report\<close>

subsection \<open>Which issues are errors\<close>








subsection \<open>\<^verbatim>\<open>execute\<close> returns on acyclic input\<close>


lemma execute_fuel_mono:
  assumes "execute n tasks cs = Some r" and "n \<le> m"
  shows "execute m tasks cs = Some r"
proof -
  from assms(1) obtain cyc cp opt where
    a: "findCircularDependencies n tasks = Some cyc"
    and b: "calculateCriticalPath n tasks = Some cp"
    and c: "optimizeTaskExecution n tasks = Some opt"
    by (auto simp: execute_def collectIssues_def split: bind_splits)
  from findCircularDependencies_fuel_mono[OF a assms(2)]
    calculateCriticalPath_fuel_mono[OF b assms(2)]
    optimizeTaskExecution_fuel_mono[OF c assms(2)] a b c assms(1)
  show ?thesis by (simp add: execute_def collectIssues_def)
qed

subsection \<open>Validity\<close>



end
